theory Spec2Isabelle
  imports Complex_Main "HOL-Library.Sublist" "HOL-Library.Multiset" "HOL-Library.AList"
    "HOL-Library.Log_Nat"
begin

chapter \<open>The program\<close>

section \<open>Exceptions\<close>

text \<open>
  The Python exceptions that the modelled functions can raise. A function that may raise
  returns \<open>error + 'a\<close>, with \<open>Inl\<close> for the exception.
\<close>

datatype error =
  IndexError | ZeroDivisionError | ValueError | RuntimeError | TypeError
  | AssertionError | NotImplementedError | OverflowError

section \<open>Python floats\<close>

text \<open>
  A Python \<open>float\<close> and a NumPy \<open>float64\<close> are IEEE 754 doubles. A finite double is
  modelled as the rational number it denotes. The finite doubles are the numbers
  \<open>m * 2 ^ s / 2 ^ 1074\<close> with \<open>m < 2 ^ 53\<close> and \<open>s \<le> 2045\<close>, and their negatives; an
  arithmetic operation returns the double nearest to the exact result, a tie going to the
  even \<open>m\<close>, and infinity when that rounding exceeds the largest double.
\<close>

text \<open>Rounding a rational to the nearest integer, a tie to the even one.\<close>

definition rne :: "rat \<Rightarrow> int" where
  "rne y =
     (let n = \<lfloor>y\<rfloor>; r = y - of_int n
      in if r < 1 / 2 then n else if 1 / 2 < r then n + 1 else if even n then n else n + 1)"

text \<open>The smallest positive double.\<close>

definition denorm_min :: rat where
  "denorm_min = 1 / 2 ^ 1074"

text \<open>
  The spacing of the doubles around \<open>x\<close>: with \<open>b\<close> the number of binary digits of the
  integer part of \<open>\<bar>x\<bar> / denorm_min\<close>, the doubles around \<open>x\<close> are the multiples of
  \<open>2 ^ (b - 53) * denorm_min\<close>, and those of \<open>denorm_min\<close> when \<open>b \<le> 53\<close> (the subnormal
  numbers and the first binade of the normal ones).
\<close>

definition ulp_shift :: "rat \<Rightarrow> nat" where
  "ulp_shift x = nat (bitlen \<lfloor>\<bar>x\<bar> / denorm_min\<rfloor> - 53)"

definition ulp :: "rat \<Rightarrow> rat" where
  "ulp x = 2 ^ ulp_shift x * denorm_min"

text \<open>The nearest multiple of the spacing, a tie to the even multiple.\<close>

definition round_to_double :: "rat \<Rightarrow> rat" where
  "round_to_double x = sgn x * of_int (rne (\<bar>x\<bar> / ulp x)) * ulp x"

text \<open>The largest finite double.\<close>

definition max_double :: rat where
  "max_double = (2 ^ 53 - 1) * 2 ^ 971"

text \<open>The double of an exact result: \<open>None\<close> stands for an infinity.\<close>

definition round_double :: "rat \<Rightarrow> rat option" where
  "round_double x =
     (let r = round_to_double x in if \<bar>r\<bar> \<le> max_double then Some r else None)"

text \<open>\<open>float(n)\<close> for an integer \<open>n\<close>, as it is converted when it meets a float.\<close>

definition float_of_int :: "int \<Rightarrow> rat option" where
  "float_of_int n = round_double (of_int n)"

text \<open>\<open>x * y\<close> and \<open>x + y\<close> on finite doubles.\<close>

definition float_mul :: "rat \<Rightarrow> rat \<Rightarrow> rat option" where
  "float_mul x y = round_double (x * y)"

definition float_add :: "rat \<Rightarrow> rat \<Rightarrow> rat option" where
  "float_add x y = round_double (x + y)"

text \<open>\<open>x / y\<close> on finite doubles: a zero divisor raises.\<close>

definition float_div :: "rat \<Rightarrow> rat \<Rightarrow> error + rat option" where
  "float_div x y = (if y = 0 then Inl ZeroDivisionError else Inr (round_double (x / y)))"

text \<open>
  \<open>a / b\<close> on two Python integers: the double nearest to the exact quotient. A zero
  divisor and a quotient beyond the largest double raise.
\<close>

definition int_truediv :: "int \<Rightarrow> int \<Rightarrow> error + rat" where
  "int_truediv a b =
     (if b = 0 then Inl ZeroDivisionError
      else case round_double (of_int a / of_int b) of
             None \<Rightarrow> Inl OverflowError
           | Some q \<Rightarrow> Inr q)"

text \<open>
  \<open>int(x)\<close> on a float: a finite \<open>x\<close> is truncated toward zero, an infinity is refused.
\<close>

definition int_of_float :: "rat option \<Rightarrow> error + int" where
  "int_of_float x =
     (case x of
        None \<Rightarrow> Inl OverflowError
      | Some r \<Rightarrow> Inr (if 0 \<le> r then \<lfloor>r\<rfloor> else \<lceil>r\<rceil>))"

section \<open>The ablation loop of \<open>run_cnn_ablations.py\<close>\<close>

text \<open>
  A slice \<open>xs[:k]\<close> with a negative \<open>k\<close> counts from the end.
\<close>

definition ORDER_INCREASING :: string where
  "ORDER_INCREASING = ''increasing''"

definition ORDER_DECREASING :: string where
  "ORDER_DECREASING = ''decreasing''"

definition slice_to :: "'a list \<Rightarrow> int \<Rightarrow> 'a list" where
  "slice_to xs k = (if k < 0 then take (nat (int (length xs) + k)) xs else take (nat k) xs)"

text \<open>
  \<open>sorted(xs, key=key, reverse=reverse)\<close>: a stable sort by key. With \<open>reverse\<close> the list
  is reversed, sorted and reversed again, so that equal keys keep their original order
  in both directions.
\<close>

definition sorted_py :: "('a \<Rightarrow> 'k::linorder) \<Rightarrow> bool \<Rightarrow> 'a list \<Rightarrow> 'a list" where
  "sorted_py key reverse xs = (if reverse then rev (sort_key key (rev xs)) else sort_key key xs)"

text \<open>
  \<open>indices = sorted(range(len(captions)), key=lambda i: scores[i], reverse=order ==
  ORDER_DECREASING)\<close>, where \<open>n\<close> is \<open>len(captions)\<close>. Reading \<open>scores[i]\<close> past the end
  of \<open>scores\<close> raises.
\<close>

definition ablation_indices :: "nat \<Rightarrow> 's::linorder list \<Rightarrow> string \<Rightarrow> error + nat list" where
  "ablation_indices n scores order =
     (if n \<le> length scores
      then Inr (sorted_py (\<lambda>i. scores ! i) (order = ORDER_DECREASING) [0..<n])
      else Inl IndexError)"

text \<open>
  \<open>ablated = indices[:int(fraction * len(indices))]\<close>, where \<open>fraction\<close> is a
  \<open>float64\<close> of the array \<open>fractions\<close>: the length is converted to a float, the product
  is the double of the exact product, and \<open>int\<close> truncates it.
\<close>

definition ablated :: "nat list \<Rightarrow> rat \<Rightarrow> error + nat list" where
  "ablated indices fraction =
     (case float_of_int (int (length indices)) of
        None \<Rightarrow> Inl OverflowError
      | Some n \<Rightarrow>
          (case int_of_float (float_mul fraction n) of
             Inl e \<Rightarrow> Inl e
           | Inr k \<Rightarrow> Inr (slice_to indices k)))"

text \<open>
  The loop \<open>for fraction in fractions\<close> for one experiment, trial and order: the list of
  the \<open>ablated\<close> lists, one per fraction, in the order of the sweep. An exception ends
  the loop.
\<close>

fun sweep_loop :: "nat list \<Rightarrow> rat list \<Rightarrow> error + nat list list" where
  "sweep_loop indices [] = Inr []"
| "sweep_loop indices (fraction # rest) =
     (case ablated indices fraction of
        Inl e \<Rightarrow> Inl e
      | Inr units \<Rightarrow>
          (case sweep_loop indices rest of
             Inl e \<Rightarrow> Inl e
           | Inr sweep \<Rightarrow> Inr (units # sweep)))"

definition ablation_sweep ::
  "nat \<Rightarrow> 's::linorder list \<Rightarrow> string \<Rightarrow> rat list \<Rightarrow> error + nat list list" where
  "ablation_sweep n scores order fractions =
     (case ablation_indices n scores order of
        Inl e \<Rightarrow> Inl e
      | Inr indices \<Rightarrow> sweep_loop indices fractions)"

subsection \<open>Parse depth (the \<open>EXPERIMENT_PARSE_DEPTH\<close> branch)\<close>

text \<open>
  A token of a parsed caption carries its dependency label (\<open>token.dep_\<close>) and its
  immediate syntactic children (\<open>token.children\<close>), each with its own subtree. A parsed
  caption is the list of its tokens.
\<close>

datatype token = Token (dep: string) (children: "token list")

text \<open>
  The loop \<open>for token in tokens: if token.dep_ == 'ROOT': root = token\<close>, starting from
  \<open>root = None\<close>: the last token labelled \<open>ROOT\<close>, if any.
\<close>

definition find_root :: "token list \<Rightarrow> token option" where
  "find_root tokens =
     fold (\<lambda>token r. if dep token = ''ROOT'' then Some token else r) tokens None"

text \<open>
  The \<open>while frontier:\<close> loop. \<open>frontier.pop()\<close> takes the last entry; the children of
  the popped token are appended with \<open>depth + 1\<close>.
\<close>

function parse_depth_loop :: "(token \<times> nat) list \<Rightarrow> nat \<Rightarrow> nat" where
  "parse_depth_loop frontier deepest =
     (if frontier = [] then deepest
      else (case last frontier of (current, depth) \<Rightarrow>
        parse_depth_loop
          (butlast frontier @ map (\<lambda>child. (child, depth + 1)) (children current))
          (if depth > deepest then depth else deepest)))"
  by pat_completeness auto
termination
proof (relation "measure (\<lambda>(frontier, deepest). sum_list (map (\<lambda>(t, d). size t) frontier))")
  show "wf (measure (\<lambda>(frontier, deepest). sum_list (map (\<lambda>(t, d). size t) frontier)))"
    by simp
next
  fix frontier :: "(token \<times> nat) list" and deepest :: nat and current depth
  assume ne: "frontier \<noteq> []" and cd: "(current, depth) = last frontier"
  have fr: "frontier = butlast frontier @ [(current, depth)]"
    using ne cd by simp
  have "sum_list (map (\<lambda>(t, d). size t) (map (\<lambda>child. (child, depth + 1)) (children current)))
        = sum_list (map size (children current))"
    by (simp add: comp_def)
  moreover have "sum_list (map size (children current)) < size current"
    by (cases current) (simp add: size_list_conv_sum_list)
  moreover have "sum_list (map (\<lambda>(t, d). size t) frontier)
        = sum_list (map (\<lambda>(t, d). size t) (butlast frontier)) + size current"
    by (subst fr) simp
  ultimately show "((butlast frontier @ map (\<lambda>child. (child, depth + 1)) (children current),
           if deepest < depth then depth else deepest), frontier, deepest)
        \<in> measure (\<lambda>(frontier, deepest). sum_list (map (\<lambda>(t, d). size t) frontier))"
    by simp
qed

declare parse_depth_loop.simps [simp del]

text \<open>
  The score of one caption: \<open>assert root is not None\<close>, then the loop from
  \<open>frontier = [(root, 0)]\<close> and \<open>deepest = 0\<close>.
\<close>

definition parse_depth :: "token list \<Rightarrow> error + nat" where
  "parse_depth tokens =
     (case find_root tokens of
        None \<Rightarrow> Inl AssertionError
      | Some root_tok \<Rightarrow> Inr (parse_depth_loop [(root_tok, 0)] 0))"

text \<open>
  The specification's measure, for comparison with the loop: the number of edges on the
  longest path from a token down to any of its descendants, 0 for a token without children.
\<close>

fun longest_path :: "token \<Rightarrow> nat" where
  "longest_path (Token d cs) = Max (insert 0 ((\<lambda>c. Suc (longest_path c)) ` set cs))"

text \<open>The largest element of a list of naturals, 0 for the empty list.\<close>

definition maxl :: "nat list \<Rightarrow> nat" where
  "maxl xs = fold max xs 0"

section \<open>\<open>ImageClassifier\<close> (\<open>src/milan/classifiers.py\<close>)\<close>

text \<open>
  A dataset is the list of its samples; a sample is a pair of an image (index 0) and a
  target label (index 1), as the default \<open>image_index\<close> and \<open>target_index\<close> read it.
  Long tensors of one dimension are lists of integers; the outputs of the wrapped model
  are lists of rationals.
\<close>

type_synonym 'img dataset = "('img \<times> int) list"

subsection \<open>Library operations used by the class\<close>

text \<open>
  \<open>data.DataLoader(dataset, batch_size=batch_size)\<close> without shuffling: the constructor
  refuses a batch size that is not positive; iterating yields the samples in dataset
  order, \<open>batch_size\<close> at a time, the last batch possibly shorter.
\<close>

function batches :: "nat \<Rightarrow> 'a list \<Rightarrow> 'a list list" where
  "batches n xs = (if n = 0 \<or> xs = [] then [] else take n xs # batches n (drop n xs))"
  by pat_completeness auto
termination
  by (relation "measure (\<lambda>(n, xs). length xs)") auto

declare batches.simps [simp del]

definition DataLoader :: "'a list \<Rightarrow> int \<Rightarrow> error + 'a list list" where
  "DataLoader dataset batch_size =
     (if batch_size \<le> 0 then Inl ValueError else Inr (batches (nat batch_size) dataset))"

text \<open>\<open>torch.cat(tensors)\<close> along the first dimension; an empty list of tensors is refused.\<close>

definition torch_cat :: "'a list list \<Rightarrow> error + 'a list" where
  "torch_cat tensors = (if tensors = [] then Inl RuntimeError else Inr (concat tensors))"

text \<open>
  \<open>row.argmax()\<close>: the index of the first maximal entry. A batch of outputs with no class
  at all cannot be reduced.
\<close>

definition argmax :: "rat list \<Rightarrow> nat" where
  "argmax row = length (takeWhile (\<lambda>x. x \<noteq> Max (set row)) row)"

definition argmax_rows :: "rat list list \<Rightarrow> error + int list" where
  "argmax_rows outputs =
     (if list_ex (\<lambda>row. row = []) outputs then Inl IndexError
      else Inr (map (\<lambda>row. int (argmax row)) outputs))"

text \<open>
  \<open>predictions.eq(targets)\<close> on tensors of one dimension: elementwise when the lengths
  agree, broadcast when one of them has length 1, refused otherwise.
\<close>

definition tensor_eq :: "int list \<Rightarrow> int list \<Rightarrow> error + bool list" where
  "tensor_eq xs ys =
     (if length xs = length ys then Inr (map (\<lambda>(x, y). x = y) (zip xs ys))
      else if length xs = 1 then Inr (map (\<lambda>y. hd xs = y) ys)
      else if length ys = 1 then Inr (map (\<lambda>x. x = hd ys) xs)
      else Inl RuntimeError)"

subsection \<open>Ablation\<close>

text \<open>
  Modelled from the spec: \<open>ablations.ablated\<close> (\<open>src/utils/ablations.py\<close>) and the
  \<open>Unit\<close> type (\<open>src/utils/typing.py\<close>) are not among the sources. The spec says that
  the classifier supports "ablating specified units (zeroing activations) during forward
  passes". A unit is a layer name with the index of a unit of that layer; the wrapped
  model is a sequence of named layers, each computing one activation per unit from the
  activations of the layer before; the ablated model runs the same layers and sets the
  activation of every listed unit to zero as soon as its layer has computed it.
\<close>

type_synonym unit_id = "string \<times> nat"

type_synonym layers = "(string \<times> (rat list \<Rightarrow> rat list)) list"

text \<open>
  Modelled from the spec: zeroing the activations of the listed units of one layer, whose
  hook in \<open>ablations.ablated\<close> is missing.
\<close>

definition zero_units :: "string \<Rightarrow> unit_id list \<Rightarrow> rat list \<Rightarrow> rat list" where
  "zero_units name units acts =
     map (\<lambda>(u, a). if (name, u) \<in> set units then 0 else a) (zip [0..<length acts] acts)"

text \<open>
  Modelled from the spec: the activations of every layer during one forward pass of the
  model that \<open>ablations.ablated\<close> (missing) yields.
\<close>

fun ablated_activations :: "layers \<Rightarrow> unit_id list \<Rightarrow> rat list \<Rightarrow> rat list list" where
  "ablated_activations [] units x = []"
| "ablated_activations ((name, f) # rest) units x =
     zero_units name units (f x) # ablated_activations rest units (zero_units name units (f x))"

text \<open>
  Modelled from the spec: the output of that forward pass, the activations of the last
  layer (the input itself for a model without layers).
\<close>

definition ablated_forward :: "layers \<Rightarrow> unit_id list \<Rightarrow> rat list \<Rightarrow> rat list" where
  "ablated_forward model units x = last (x # ablated_activations model units x)"

text \<open>
  Modelled from the spec: the model that \<open>ablations.ablated\<close> (missing) yields, on a
  batch: one output row per image.
\<close>

definition ablated_model :: "layers \<Rightarrow> unit_id list \<Rightarrow> rat list list \<Rightarrow> rat list list" where
  "ablated_model model units images = map (ablated_forward model units) images"

subsection \<open>\<open>ImageClassifier.predict\<close>\<close>

text \<open>
  The loop \<open>for batch in loader: predictions.append(ablated(images).argmax(dim=-1))\<close>,
  where \<open>images = batch[image_index]\<close> are the images of the batch.
\<close>

fun predict_loop ::
  "('img list \<Rightarrow> rat list list) \<Rightarrow> 'img dataset list \<Rightarrow> error + int list list" where
  "predict_loop net [] = Inr []"
| "predict_loop net (batch # rest) =
     (case argmax_rows (net (map fst batch)) of
        Inl e \<Rightarrow> Inl e
      | Inr p \<Rightarrow>
          (case predict_loop net rest of
             Inl e \<Rightarrow> Inl e
           | Inr predictions \<Rightarrow> Inr (p # predictions)))"

text \<open>
  \<open>predict\<close>: \<open>ablations_ablated units\<close> stands for the model that
  \<open>ablations.ablated(self.model, units)\<close> yields; it is called with \<open>ablate or []\<close>.
\<close>

definition predict ::
  "(unit_id list \<Rightarrow> 'img list \<Rightarrow> rat list list) \<Rightarrow> 'img dataset \<Rightarrow> int
     \<Rightarrow> unit_id list option \<Rightarrow> error + int list" where
  "predict ablations_ablated dataset batch_size ablate =
     (case DataLoader dataset batch_size of
        Inl e \<Rightarrow> Inl e
      | Inr loader \<Rightarrow>
          (case predict_loop (ablations_ablated (case ablate of None \<Rightarrow> [] | Some units \<Rightarrow> units)) loader of
             Inl e \<Rightarrow> Inl e
           | Inr predictions \<Rightarrow> torch_cat predictions))"

subsection \<open>\<open>ImageClassifier.accuracy\<close>\<close>

text \<open>
  \<open>self_predict\<close> stands for the call \<open>self.predict(dataset, ...)\<close> made when no
  predictions are passed.
\<close>

definition accuracy ::
  "('img dataset \<Rightarrow> error + int list) \<Rightarrow> 'img dataset \<Rightarrow> int list option \<Rightarrow> error + rat" where
  "accuracy self_predict dataset predictions =
     (case (case predictions of None \<Rightarrow> self_predict dataset | Some p \<Rightarrow> Inr p) of
        Inl e \<Rightarrow> Inl e
      | Inr preds \<Rightarrow>
          (let size = length dataset;
               targets = map snd dataset
           in case tensor_eq preds targets of
                Inl e \<Rightarrow> Inl e
              | Inr eq \<Rightarrow>
                  (let correct = length (filter (\<lambda>b. b) eq)
                   in int_truediv (int correct) (int size))))"

subsection \<open>\<open>ImageClassifier.accuracies\<close>\<close>

text \<open>
  A Python \<open>dict\<close> is an association list in insertion order. \<open>d[k] += v\<close> on a
  \<open>defaultdict(int)\<close> reads 0 for a missing key and stores the sum.
\<close>

type_synonym ('k, 'v) dict = "('k \<times> 'v) list"

definition dict_get0 :: "(int, nat) dict \<Rightarrow> int \<Rightarrow> nat" where
  "dict_get0 d k = (case map_of d k of None \<Rightarrow> 0 | Some c \<Rightarrow> c)"

definition dict_add :: "(int, nat) dict \<Rightarrow> int \<Rightarrow> nat \<Rightarrow> (int, nat) dict" where
  "dict_add d k v = AList.update k (dict_get0 d k + v) d"

text \<open>
  The loop over \<open>zip(predictions.tolist(), targets.tolist())\<close>:
  \<open>correct[target] += prediction == target; total[target] += 1\<close> (\<open>totals\<close> is the
  dictionary \<open>total\<close>).
\<close>

fun accuracies_loop ::
  "(int \<times> int) list \<Rightarrow> (int, nat) dict \<times> (int, nat) dict
     \<Rightarrow> (int, nat) dict \<times> (int, nat) dict" where
  "accuracies_loop [] (correct, totals) = (correct, totals)"
| "accuracies_loop ((prediction, target) # rest) (correct, totals) =
     accuracies_loop rest
       (dict_add correct target (if prediction = target then 1 else 0),
        dict_add totals target 1)"

text \<open>
  The dictionary \<open>{target: correct[target] / total[target] for target in
  correct.keys()}\<close>, built key by key.
\<close>

fun class_accuracies :: "(int, nat) dict \<Rightarrow> (int, nat) dict \<Rightarrow> error + (int, rat) dict" where
  "class_accuracies [] totals = Inr []"
| "class_accuracies ((target, c) # rest) totals =
     (case int_truediv (int c) (int (dict_get0 totals target)) of
        Inl e \<Rightarrow> Inl e
      | Inr q \<Rightarrow>
          (case class_accuracies rest totals of
             Inl e \<Rightarrow> Inl e
           | Inr accs \<Rightarrow> Inr ((target, q) # accs)))"

definition accuracies ::
  "('img dataset \<Rightarrow> error + int list) \<Rightarrow> 'img dataset \<Rightarrow> int list option
     \<Rightarrow> error + (int, rat) dict" where
  "accuracies self_predict dataset predictions =
     (case (case predictions of None \<Rightarrow> self_predict dataset | Some p \<Rightarrow> Inr p) of
        Inl e \<Rightarrow> Inl e
      | Inr preds \<Rightarrow>
          (let targets = map snd dataset;
               (correct, totals) = accuracies_loop (zip preds targets) ([], [])
           in if set (map fst correct) \<noteq> set (map fst totals) then Inl AssertionError
              else class_accuracies correct totals))"

section \<open>Featurizers (\<open>lv/models/featurizers.py\<close>)\<close>

subsection \<open>\<open>Featurizer.map\<close>\<close>

text \<open>
  A sample holds, at the image index and at the mask index, either a \<open>torch.Tensor\<close> or a
  value that is not collated into a tensor (a string, say). The loader collates each field
  of a batch as its first sample tells: tensors are stacked into one tensor with a row per
  sample, which fails when some other sample of the batch holds no tensor there; a field
  of any other kind is handed on as a list, which is not a tensor.
\<close>

datatype 'a field = Tensor 'a | NonTensor

datatype 'a collated = Stacked "'a list" | Uncollated

fun the_tensors :: "'a field list \<Rightarrow> 'a list option" where
  "the_tensors [] = Some []"
| "the_tensors (Tensor t # rest) =
     (case the_tensors rest of None \<Rightarrow> None | Some ts \<Rightarrow> Some (t # ts))"
| "the_tensors (NonTensor # rest) = None"

definition default_collate :: "'a field list \<Rightarrow> error + 'a collated" where
  "default_collate entries =
     (case entries of
        [] \<Rightarrow> Inl IndexError
      | Tensor t # rest \<Rightarrow>
          (case the_tensors entries of None \<Rightarrow> Inl TypeError | Some ts \<Rightarrow> Inr (Stacked ts))
      | NonTensor # rest \<Rightarrow> Inr Uncollated)"

text \<open>
  The loop of \<open>Featurizer.map\<close> over the batches of the loader. \<open>forward\<close> stands for
  \<open>self(images, masks, **kwargs)\<close> of the subclass.
\<close>

fun map_loop ::
  "('i list \<Rightarrow> 'm list \<Rightarrow> error + 'f list) \<Rightarrow> ('i field \<times> 'm field) list list
     \<Rightarrow> error + 'f list list" where
  "map_loop forward [] = Inr []"
| "map_loop forward (batch # rest) =
     (case default_collate (map fst batch) of
        Inl e \<Rightarrow> Inl e
      | Inr images \<Rightarrow>
     (case default_collate (map snd batch) of
        Inl e \<Rightarrow> Inl e
      | Inr masks \<Rightarrow>
     (case images of
        Uncollated \<Rightarrow> Inl ValueError
      | Stacked imgs \<Rightarrow>
     (case masks of
        Uncollated \<Rightarrow> Inl ValueError
      | Stacked ms \<Rightarrow>
     (case forward imgs ms of
        Inl e \<Rightarrow> Inl e
      | Inr features \<Rightarrow>
     (case map_loop forward rest of
        Inl e \<Rightarrow> Inl e
      | Inr mapped \<Rightarrow> Inr (features # mapped)))))))"

text \<open>
  \<open>Featurizer.map\<close>: the returned \<open>TensorDataset\<close> is the list of the rows of
  \<open>torch.cat(mapped)\<close>.
\<close>

definition Featurizer_map ::
  "('i list \<Rightarrow> 'm list \<Rightarrow> error + 'f list) \<Rightarrow> ('i field \<times> 'm field) list \<Rightarrow> int
     \<Rightarrow> error + 'f list" where
  "Featurizer_map forward dataset batch_size =
     (case DataLoader dataset batch_size of
        Inl e \<Rightarrow> Inl e
      | Inr loader \<Rightarrow>
          (case map_loop forward loader of
             Inl e \<Rightarrow> Inl e
           | Inr mapped \<Rightarrow> torch_cat mapped))"

text \<open>
  Predicates on a batch of samples: its image entry or its mask entry is not a tensor
  after collation; both entries are collated without an error; and the sample that holds
  a tensor at both indices.
\<close>

definition non_tensor_batch :: "('i field \<times> 'm field) list \<Rightarrow> bool" where
  "non_tensor_batch batch =
     (default_collate (map fst batch) = Inr Uncollated
      \<or> default_collate (map snd batch) = Inr Uncollated)"

definition collates :: "('i field \<times> 'm field) list \<Rightarrow> bool" where
  "collates batch =
     ((\<exists>c. default_collate (map fst batch) = Inr c) \<and> (\<exists>c. default_collate (map snd batch) = Inr c))"

definition tensor_sample :: "'i \<times> 'm \<Rightarrow> 'i field \<times> 'm field" where
  "tensor_sample s = (Tensor (fst s), Tensor (snd s))"

subsection \<open>\<open>PretrainedPyramidFeaturizer.forward\<close>\<close>

text \<open>
  A mask is its matrix of numbers (the single channel of shape \<open>(height, width)\<close>). A
  computed float is \<open>Some\<close> of a rational, or \<open>None\<close> when it is not a finite number
  (what division by a zero sum yields in torch, which does not raise).
\<close>

type_synonym matrix = "rat list list"

type_synonym float = "rat option"

definition fdiv :: "rat \<Rightarrow> rat \<Rightarrow> float" where
  "fdiv x s = (if s = 0 then None else Some (x / s))"

definition fmul :: "rat \<Rightarrow> float \<Rightarrow> float" where
  "fmul a b = (case b of None \<Rightarrow> None | Some y \<Rightarrow> Some (a * y))"

fun fsum :: "float list \<Rightarrow> float" where
  "fsum [] = Some 0"
| "fsum (x # xs) =
     (case x of None \<Rightarrow> None
      | Some a \<Rightarrow> (case fsum xs of None \<Rightarrow> None | Some b \<Rightarrow> Some (a + b)))"

text \<open>\<open>valid = ~masks.eq(0).all(dim=-1).all(dim=-1).view(-1)\<close>\<close>

definition valid_masks :: "matrix list \<Rightarrow> bool list" where
  "valid_masks masks = map (\<lambda>m. \<not> list_all (list_all (\<lambda>x. x = 0)) m) masks"

text \<open>
  \<open>indices = valid.nonzero().squeeze()\<close>: \<open>nonzero\<close> yields the positions of the true
  entries as a tensor of shape \<open>(k, 1)\<close>; \<open>squeeze()\<close> drops every dimension of size 1, so
  the result is a tensor of \<open>k\<close> indices, but a tensor of no dimension (a single index)
  when \<open>k = 1\<close>.
\<close>

datatype index = Scalar nat | Vector "nat list"

definition nonzero :: "bool list \<Rightarrow> nat list" where
  "nonzero valid = filter (\<lambda>i. valid ! i) [0..<length valid]"

definition squeeze :: "nat list \<Rightarrow> index" where
  "squeeze positions = (case positions of [i] \<Rightarrow> Scalar i | _ \<Rightarrow> Vector positions)"

text \<open>
  \<open>tensor[indices]\<close>: indexing with a tensor of indices keeps the batch dimension;
  indexing with a single index selects that entry and drops the batch dimension.
\<close>

datatype 'a indexed = Single 'a | Batch "'a list"

definition select :: "'a list \<Rightarrow> index \<Rightarrow> error + 'a indexed" where
  "select xs indices =
     (case indices of
        Scalar i \<Rightarrow> (if i < length xs then Inr (Single (xs ! i)) else Inl IndexError)
      | Vector positions \<Rightarrow>
          (if list_all (\<lambda>i. i < length xs) positions
           then Inr (Batch (map (\<lambda>i. xs ! i) positions))
           else Inl IndexError))"

text \<open>
  The retained features of one layer, for a batch: \<open>fs.shape[-2:]\<close> and, for every image
  of the batch, the matrix of every channel.
\<close>

record layer_features =
  spatial :: "nat \<times> nat"
  channels :: "matrix list list"

text \<open>
  \<open>functional.interpolate(masks, size=..., mode='bilinear', align_corners=False)\<close>:
  bilinear resampling needs the batch dimension and refuses masks that lost it (the
  exception is a \<open>NotImplementedError\<close> or a \<open>ValueError\<close>, as the version of torch
  has it). \<open>bilinear size m\<close> stands for the resampling of one mask to the given
  spatial size.
\<close>

definition interpolate ::
  "(nat \<times> nat \<Rightarrow> matrix \<Rightarrow> matrix) \<Rightarrow> matrix indexed \<Rightarrow> nat \<times> nat \<Rightarrow> error + matrix list" where
  "interpolate bilinear masks out_size =
     (case masks of
        Single m \<Rightarrow> Inl NotImplementedError
      | Batch ms \<Rightarrow> Inr (map (bilinear out_size) ms))"

text \<open>\<open>ms /= ms.sum(dim=(-1, -2), keepdim=True)\<close>, for one mask.\<close>

definition normalize_mask :: "matrix \<Rightarrow> float list list" where
  "normalize_mask m = map (map (\<lambda>x. fdiv x (sum_list (concat m)))) m"

text \<open>\<open>fs.mul(ms).sum(dim=(-1, -2))\<close>, for one image: one pooled value per channel.\<close>

definition pool :: "matrix list \<Rightarrow> float list list \<Rightarrow> float list" where
  "pool fs ms = map (\<lambda>channel. fsum (map (\<lambda>(a, w). fmul a w) (zip (concat channel) (concat ms)))) fs"

text \<open>
  The loop \<open>for fs in features\<close>: the pooled features of every layer, per image. The
  product \<open>fs.mul(ms)\<close> needs the features of as many images as there are masks.
\<close>

fun masked_features ::
  "(nat \<times> nat \<Rightarrow> matrix \<Rightarrow> matrix) \<Rightarrow> matrix indexed \<Rightarrow> layer_features list
     \<Rightarrow> error + float list list list" where
  "masked_features bilinear masks [] = Inr []"
| "masked_features bilinear masks (fs # features) =
     (case interpolate bilinear masks (spatial fs) of
        Inl e \<Rightarrow> Inl e
      | Inr ms \<Rightarrow>
          if length (channels fs) \<noteq> length ms then Inl RuntimeError
          else
            (case masked_features bilinear masks features of
               Inl e \<Rightarrow> Inl e
             | Inr masked \<Rightarrow>
                 Inr (map (\<lambda>(f, m). pool f (normalize_mask m)) (zip (channels fs) ms) # masked)))"

text \<open>
  \<open>torch.cat(masked, dim=-1)\<close>: for every image, the pooled vectors of the layers one
  after the other; an empty list of layers is refused, and so are layers that differ in
  the number of images.
\<close>

definition torch_cat_last :: "'a list list list \<Rightarrow> error + 'a list list" where
  "torch_cat_last masked =
     (if masked = [] then Inl RuntimeError
      else if list_ex (\<lambda>mfs. length mfs \<noteq> length (hd masked)) masked then Inl RuntimeError
      else Inr (map (\<lambda>j. concat (map (\<lambda>mfs. mfs ! j) masked)) [0..<length (hd masked)]))"

text \<open>
  \<open>result[indices] = rows\<close> with a tensor of \<open>k\<close> indices: \<open>rows\<close> must broadcast to the
  shape \<open>(k, feature_size)\<close>, that is, each of its two dimensions has the size wanted or
  size 1. (With a single index the assignment is never reached: the loop over the features
  or \<open>torch.cat\<close> has raised before.)
\<close>

definition broadcast :: "nat \<Rightarrow> 'a list \<Rightarrow> 'a list option" where
  "broadcast n xs =
     (if length xs = n then Some xs
      else if length xs = 1 then Some (replicate n (hd xs))
      else None)"

definition index_put :: "'a list list \<Rightarrow> index \<Rightarrow> 'a list list \<Rightarrow> nat \<Rightarrow> error + 'a list list" where
  "index_put result indices rows feature_size =
     (case indices of
        Scalar i \<Rightarrow> Inl RuntimeError
      | Vector positions \<Rightarrow>
          (case broadcast (length positions) rows of
             None \<Rightarrow> Inl RuntimeError
           | Some rows' \<Rightarrow>
               (if list_all (\<lambda>row. broadcast feature_size row \<noteq> None) rows'
                then Inr (fold (\<lambda>(i, row) r. r[i := the (broadcast feature_size row)])
                            (zip positions rows') result)
                else Inl RuntimeError)))"

text \<open>
  \<open>forward\<close>: \<open>featurizer\<close> stands for the instrumented pretrained network with its
  retained layers (\<open>self.featurizer(images)\<close> followed by \<open>retained_features\<close>), and
  \<open>feature_size\<close> for \<open>self.feature_shape\<close>.
\<close>

definition forward ::
  "('img indexed \<Rightarrow> error + layer_features list) \<Rightarrow> (nat \<times> nat \<Rightarrow> matrix \<Rightarrow> matrix) \<Rightarrow> nat
     \<Rightarrow> 'img list \<Rightarrow> matrix list \<Rightarrow> error + float list list" where
  "forward featurizer bilinear feature_size images masks =
     (let result = replicate (length images) (replicate feature_size (Some 0));
          valid = valid_masks masks
      in if \<not> list_ex (\<lambda>v. v) valid then Inr result
         else
           (let indices = squeeze (nonzero valid)
            in case select images indices of
                 Inl e \<Rightarrow> Inl e
               | Inr images' \<Rightarrow>
              (case select masks indices of
                 Inl e \<Rightarrow> Inl e
               | Inr masks' \<Rightarrow>
              (case featurizer images' of
                 Inl e \<Rightarrow> Inl e
               | Inr features \<Rightarrow>
              (case masked_features bilinear masks' features of
                 Inl e \<Rightarrow> Inl e
               | Inr masked \<Rightarrow>
              (case torch_cat_last masked of
                 Inl e \<Rightarrow> Inl e
               | Inr rows \<Rightarrow> index_put result indices rows feature_size))))))"

text \<open>
  The feature vector that the pyramid assigns to the \<open>j\<close>-th image with a mask that is
  not all zero: for each retained layer, the mask resampled to the layer's spatial size
  and divided by its sum weighs the activations of every channel; the pooled vectors of
  the layers follow one another.
\<close>

definition pyramid_features ::
  "(nat \<times> nat \<Rightarrow> matrix \<Rightarrow> matrix) \<Rightarrow> layer_features list \<Rightarrow> nat \<Rightarrow> matrix \<Rightarrow> float list" where
  "pyramid_features bilinear features j m =
     concat (map (\<lambda>fs. pool (channels fs ! j) (normalize_mask (bilinear (spatial fs) m)))
               features)"

section \<open>\<open>LanguageModel.fit\<close> (\<open>lv/models/lms.py\<close>)\<close>

subsection \<open>Early stopping\<close>

text \<open>
  Modelled from the spec: \<open>training.EarlyStopping\<close> (\<open>lv/utils/training.py\<close>) is not
  among the sources. The spec describes "a standard train/validate/early-stop loop", and
  \<open>fit\<close> documents \<open>patience\<close> as "stop training if validation loss does not improve for
  this many epochs". The stopper remembers the best (lowest) loss seen and the number of
  calls in a row that did not improve on it; a call reports whether to stop, and
  \<open>improved\<close> tells afterwards whether the last loss was an improvement.
\<close>

record stopper =
  patience :: nat
  best_loss :: "rat option"
  num_bad :: nat
  improved :: bool

text \<open>
  Modelled from the spec: the constructor \<open>training.EarlyStopping(patience=patience)\<close>
  (missing).
\<close>

definition EarlyStopping :: "nat \<Rightarrow> stopper" where
  "EarlyStopping p = \<lparr>patience = p, best_loss = None, num_bad = 0, improved = False\<rparr>"

text \<open>
  Modelled from the spec: the call \<open>stopper(val_loss)\<close> of the missing class. It stops
  when the loss has not improved for \<open>patience\<close> calls in a row.
\<close>

definition stopper_call :: "stopper \<Rightarrow> rat \<Rightarrow> bool \<times> stopper" where
  "stopper_call s loss =
     (if (case best_loss s of None \<Rightarrow> True | Some b \<Rightarrow> loss < b)
      then (patience s = 0, s\<lparr>best_loss := Some loss, num_bad := 0, improved := True\<rparr>)
      else (patience s \<le> num_bad s + 1, s\<lparr>num_bad := num_bad s + 1, improved := False\<rparr>))"

subsection \<open>Parameters and state dictionaries\<close>

text \<open>
  The parameters of the module are tensors in memory; \<open>params\<close> lists their addresses,
  and the heap maps an address to the value stored there. \<open>self.state_dict()\<close> returns,
  in the words of torch, "a dictionary containing references to the whole state of the
  module": the parameter tensors themselves (detached, sharing their storage), that is,
  their addresses and no copy of the values. \<open>optimizer.step()\<close> writes the new
  values into the parameters in place, and \<open>self.load_state_dict(d)\<close> copies into every
  parameter the value of the corresponding tensor of \<open>d\<close>.
\<close>

type_synonym 'w heap = "nat \<Rightarrow> 'w"

definition state_dict :: "nat list \<Rightarrow> nat list" where
  "state_dict params = params"

definition load_state_dict :: "nat list \<Rightarrow> nat list \<Rightarrow> 'w heap \<Rightarrow> 'w heap" where
  "load_state_dict params d h = fold (\<lambda>(p, s) h. h(p := h s)) (zip params d) h"

definition optimizer_step :: "nat list \<Rightarrow> 'w list \<Rightarrow> 'w heap \<Rightarrow> 'w heap" where
  "optimizer_step params values h = fold (\<lambda>(p, v) h. h(p := v)) (zip params values) h"

subsection \<open>The training loop\<close>

text \<open>
  One iteration of \<open>for _ in progress\<close> per element of the list of epochs.
  \<open>train epoch ws\<close> stands for the values of the parameters after the optimizer steps
  of one pass over the (shuffled) training batches, started from the values \<open>ws\<close>;
  \<open>validate ws\<close> for the mean validation loss of the model with parameters \<open>ws\<close>;
  \<open>n_train\<close> and \<open>n_val\<close> are \<open>len(train_loader)\<close> and \<open>len(val_loader)\<close>, by which the
  summed losses are divided. The loop returns the heap and the number of epochs run.
\<close>

fun fit_loop ::
  "(nat \<Rightarrow> 'w list \<Rightarrow> 'w list) \<Rightarrow> ('w list \<Rightarrow> rat) \<Rightarrow> nat \<Rightarrow> nat \<Rightarrow> nat list
     \<Rightarrow> nat list \<Rightarrow> stopper \<Rightarrow> nat list \<Rightarrow> 'w heap \<Rightarrow> nat \<Rightarrow> error + ('w heap \<times> nat)" where
  "fit_loop train validate n_train n_val params [] stopper best h epochs_run =
     Inr (h, epochs_run)"
| "fit_loop train validate n_train n_val params (epoch # progress) stopper best h epochs_run =
     (if n_train = 0 then Inl ZeroDivisionError
      else
        (let h' = optimizer_step params (train epoch (map h params)) h
         in if n_val = 0 then Inl ZeroDivisionError
            else
              (case stopper_call stopper (validate (map h' params)) of
                 (stop, stopper') \<Rightarrow>
                   if stop then Inr (load_state_dict params best h', epochs_run + 1)
                   else fit_loop train validate n_train n_val params progress stopper'
                          (if improved stopper' then state_dict params else best)
                          h' (epochs_run + 1))))"

text \<open>
  \<open>fit\<close>: \<open>best = self.state_dict()\<close>, then the loop over \<open>range(max_epochs)\<close>. The
  result holds the values of the parameters when \<open>fit\<close> returns and the number of epochs
  run.
\<close>

definition fit ::
  "(nat \<Rightarrow> 'w list \<Rightarrow> 'w list) \<Rightarrow> ('w list \<Rightarrow> rat) \<Rightarrow> nat \<Rightarrow> nat \<Rightarrow> nat list
     \<Rightarrow> nat \<Rightarrow> nat \<Rightarrow> 'w heap \<Rightarrow> error + ('w list \<times> nat)" where
  "fit train validate n_train n_val params max_epochs patience_arg h =
     (case fit_loop train validate n_train n_val params [0..<max_epochs]
             (EarlyStopping patience_arg) (state_dict params) h 0 of
        Inl e \<Rightarrow> Inl e
      | Inr (h', epochs_run) \<Rightarrow> Inr (map h' params, epochs_run))"

text \<open>The heap after the training passes of the given epochs, one after the other.\<close>

definition trained ::
  "(nat \<Rightarrow> 'w list \<Rightarrow> 'w list) \<Rightarrow> nat list \<Rightarrow> nat list \<Rightarrow> 'w heap \<Rightarrow> 'w heap" where
  "trained train params epochs h =
     fold (\<lambda>epoch h. optimizer_step params (train epoch (map h params)) h) epochs h"

chapter \<open>Properties\<close>

section \<open>Rounding to the nearest double\<close>

lemma rne_of_int: "rne (of_int k) = k"
  by (simp add: rne_def)

lemma rne_lower: "\<lfloor>y\<rfloor> \<le> rne y"
  by (simp add: rne_def Let_def)

lemma rne_upper: "rne y \<le> \<lfloor>y\<rfloor> + 1"
  by (simp add: rne_def Let_def)

lemma rne_bounds: "\<bar>of_int (rne y) - y\<bar> \<le> 1 / 2"
proof -
  define n where "n = \<lfloor>y\<rfloor>"
  define r where "r = y - of_int n"
  have r: "0 \<le> r" "r < 1" unfolding r_def n_def by linarith+
  have y: "y = of_int n + r" by (simp add: r_def)
  have "rne y = (if r < 1 / 2 then n else if 1 / 2 < r then n + 1
                 else if even n then n else n + 1)"
    unfolding rne_def Let_def n_def [symmetric] r_def [symmetric] ..
  then show ?thesis using r unfolding y by (auto simp: abs_if)
qed

lemma rne_mono:
  assumes "y \<le> z"
  shows "rne y \<le> rne z"
proof -
  have "\<lfloor>y\<rfloor> \<le> \<lfloor>z\<rfloor>" using assms by (rule floor_mono)
  then consider "\<lfloor>y\<rfloor> = \<lfloor>z\<rfloor>" | "\<lfloor>y\<rfloor> + 1 \<le> \<lfloor>z\<rfloor>" by linarith
  then show ?thesis
  proof cases
    case 1
    then show ?thesis using assms unfolding rne_def Let_def by auto
  next
    case 2
    then show ?thesis using rne_upper [of y] rne_lower [of z] by linarith
  qed
qed

lemma bitlen_mono: "a \<le> b \<Longrightarrow> bitlen a \<le> bitlen b"
  by (simp add: bitlen_def floorlog_mono)

lemma bitlen_le_nat: "bitlen a \<le> int w \<longleftrightarrow> a < 2 ^ w"
  using bitlen_le_iff_power [of a "int w"] by simp

lemma bitlen_ge_Suc: "int (Suc w) \<le> bitlen a \<longleftrightarrow> 2 ^ w \<le> a"
  using bitlen_ge_iff_power [of "int (Suc w)" a] by (simp add: nat_add_distrib)

lemma denorm_min_pos: "0 < denorm_min"
  by (simp add: denorm_min_def)

lemma shift_less:
  assumes "0 \<le> x"
  shows "x / denorm_min < 2 ^ (53 + ulp_shift x)"
proof -
  let ?X = "x / denorm_min"
  have "bitlen \<lfloor>?X\<rfloor> \<le> int (53 + ulp_shift x)"
    using assms by (simp add: ulp_shift_def)
  then have "\<lfloor>?X\<rfloor> < 2 ^ (53 + ulp_shift x)"
    by (simp only: bitlen_le_nat)
  then have "?X < of_int (2 ^ (53 + ulp_shift x))"
    by (simp only: floor_less_iff)
  then show ?thesis by simp
qed

lemma shift_ge:
  assumes "0 \<le> x" and "0 < ulp_shift x"
  shows "2 ^ (52 + ulp_shift x) \<le> x / denorm_min"
proof -
  let ?X = "x / denorm_min"
  have "int (Suc (52 + ulp_shift x)) \<le> bitlen \<lfloor>?X\<rfloor>"
    using assms by (simp add: ulp_shift_def)
  then have "2 ^ (52 + ulp_shift x) \<le> \<lfloor>?X\<rfloor>"
    by (simp only: bitlen_ge_Suc)
  then have "of_int (2 ^ (52 + ulp_shift x)) \<le> ?X"
    by (simp only: le_floor_iff)
  then show ?thesis by simp
qed

lemma shift_eqI:
  assumes "0 \<le> x" and "2 ^ (52 + t) \<le> x / denorm_min" and "x / denorm_min < 2 ^ (53 + t)"
  shows "ulp_shift x = t"
proof -
  let ?X = "x / denorm_min"
  have "of_int (2 ^ (52 + t)) \<le> ?X" using assms(2) by simp
  then have "2 ^ (52 + t) \<le> \<lfloor>?X\<rfloor>" by (simp only: le_floor_iff)
  then have ge: "int (Suc (52 + t)) \<le> bitlen \<lfloor>?X\<rfloor>"
    by (simp only: bitlen_ge_Suc)
  have "?X < of_int (2 ^ (53 + t))" using assms(3) by simp
  then have "\<lfloor>?X\<rfloor> < 2 ^ (53 + t)" by (simp only: floor_less_iff)
  then have le: "bitlen \<lfloor>?X\<rfloor> \<le> int (53 + t)"
    by (simp only: bitlen_le_nat)
  show ?thesis using ge le assms(1) by (simp add: ulp_shift_def)
qed

lemma shift_0I:
  assumes "0 \<le> x" and "x / denorm_min < 2 ^ 53"
  shows "ulp_shift x = 0"
proof -
  let ?X = "x / denorm_min"
  have "?X < of_int (2 ^ 53)" using assms(2) by simp
  then have "\<lfloor>?X\<rfloor> < 2 ^ 53" by (simp only: floor_less_iff)
  then have le: "bitlen \<lfloor>?X\<rfloor> \<le> int 53"
    by (simp only: bitlen_le_nat)
  show ?thesis using le assms(1) by (simp add: ulp_shift_def)
qed

lemma shift_mono:
  assumes "0 \<le> x" and "x \<le> y"
  shows "ulp_shift x \<le> ulp_shift y"
proof -
  have "\<bar>x\<bar> / denorm_min \<le> \<bar>y\<bar> / denorm_min"
    using assms denorm_min_pos by (simp add: divide_right_mono)
  then have "bitlen \<lfloor>\<bar>x\<bar> / denorm_min\<rfloor> \<le> bitlen \<lfloor>\<bar>y\<bar> / denorm_min\<rfloor>"
    by (intro bitlen_mono floor_mono)
  then show ?thesis by (simp add: ulp_shift_def)
qed

lemma ulp_pos: "0 < ulp x"
  using denorm_min_pos by (simp add: ulp_def)

lemma round_to_double_nonneg_eq:
  "0 \<le> x \<Longrightarrow> round_to_double x = of_int (rne (x / ulp x)) * ulp x"
  by (cases "x = 0") (simp_all add: round_to_double_def rne_def)

lemma round_to_double_minus: "round_to_double (- x) = - round_to_double x"
  by (simp add: round_to_double_def ulp_def ulp_shift_def sgn_minus)

lemma round_to_double_nonneg:
  assumes "0 \<le> x"
  shows "0 \<le> round_to_double x"
proof -
  have "0 \<le> x / ulp x" using assms ulp_pos [of x] by simp
  then have "rne 0 \<le> rne (x / ulp x)" by (rule rne_mono)
  then have "0 \<le> rne (x / ulp x)" by (simp add: rne_def)
  then show ?thesis
    using ulp_pos [of x] by (simp add: round_to_double_nonneg_eq [OF assms])
qed

lemma scaled_less:
  assumes "0 \<le> x"
  shows "x / ulp x < 2 ^ 53"
proof -
  have "x / denorm_min < 2 ^ (53 + ulp_shift x)" using assms by (rule shift_less)
  then have "x < 2 ^ (53 + ulp_shift x) * denorm_min"
    using denorm_min_pos by (simp only: pos_divide_less_eq)
  also have "\<dots> = 2 ^ 53 * ulp x" by (simp only: ulp_def power_add mult.assoc)
  finally show ?thesis using ulp_pos [of x] by (simp only: pos_divide_less_eq)
qed

lemma scaled_ge:
  assumes "0 \<le> x" and "0 < ulp_shift x"
  shows "2 ^ 52 \<le> x / ulp x"
proof -
  have "2 ^ (52 + ulp_shift x) \<le> x / denorm_min" using assms by (rule shift_ge)
  then have "2 ^ (52 + ulp_shift x) * denorm_min \<le> x"
    using denorm_min_pos by (simp only: pos_le_divide_eq)
  moreover have "2 ^ (52 + ulp_shift x) * denorm_min = 2 ^ 52 * ulp x"
    by (simp only: ulp_def power_add mult.assoc)
  ultimately have "2 ^ 52 * ulp x \<le> x" by simp
  then show ?thesis using ulp_pos [of x] by (simp only: pos_le_divide_eq)
qed

lemma round_to_double_mono_nonneg:
  assumes "0 \<le> x" and "x \<le> y"
  shows "round_to_double x \<le> round_to_double y"
proof -
  have y0: "0 \<le> y" using assms by simp
  have sm: "ulp_shift x \<le> ulp_shift y" using assms by (rule shift_mono)
  show ?thesis
  proof (cases "ulp_shift x = ulp_shift y")
    case True
    then have u: "ulp x = ulp y" by (simp add: ulp_def)
    have "x / ulp y \<le> y / ulp y"
      using assms(2) ulp_pos [of y] by (simp add: divide_right_mono)
    then have "rne (x / ulp y) \<le> rne (y / ulp y)" by (rule rne_mono)
    then have "(of_int (rne (x / ulp y)) :: rat) * ulp y \<le> of_int (rne (y / ulp y)) * ulp y"
      using ulp_pos [of y] by (simp add: mult_right_mono)
    then show ?thesis
      by (simp add: round_to_double_nonneg_eq [OF assms(1)] round_to_double_nonneg_eq [OF y0] u)
  next
    case False
    then have lt: "ulp_shift x < ulp_shift y" using sm by simp
    have "x / ulp x < 2 ^ 53" using assms(1) by (rule scaled_less)
    then have "x / ulp x \<le> of_int (2 ^ 53)" by simp
    then have "rne (x / ulp x) \<le> rne (of_int (2 ^ 53))" by (rule rne_mono)
    then have "rne (x / ulp x) \<le> 2 ^ 53" by (simp only: rne_of_int)
    then have "(of_int (rne (x / ulp x)) :: rat) \<le> of_int (2 ^ 53)"
      by (simp only: of_int_le_iff)
    then have "(of_int (rne (x / ulp x)) :: rat) \<le> 2 ^ 53" by simp
    then have "(of_int (rne (x / ulp x)) :: rat) * ulp x \<le> 2 ^ 53 * ulp x"
      using ulp_pos [of x] by (intro mult_right_mono) simp_all
    then have rx: "round_to_double x \<le> 2 ^ 53 * ulp x"
      by (simp only: round_to_double_nonneg_eq [OF assms(1)])
    have "2 ^ 52 \<le> y / ulp y" using y0 lt by (intro scaled_ge) simp_all
    then have "of_int (2 ^ 52) \<le> y / ulp y" by simp
    then have "rne (of_int (2 ^ 52)) \<le> rne (y / ulp y)" by (rule rne_mono)
    then have "2 ^ 52 \<le> rne (y / ulp y)" by (simp only: rne_of_int)
    then have "(of_int (2 ^ 52) :: rat) \<le> of_int (rne (y / ulp y))"
      by (simp only: of_int_le_iff)
    then have "(2 ^ 52 :: rat) \<le> of_int (rne (y / ulp y))" by simp
    then have "(2 ^ 52 :: rat) * ulp y \<le> of_int (rne (y / ulp y)) * ulp y"
      using ulp_pos [of y] by (intro mult_right_mono) simp_all
    then have ry: "2 ^ 52 * ulp y \<le> round_to_double y"
      by (simp only: round_to_double_nonneg_eq [OF y0])
    have "(2::rat) ^ (53 + ulp_shift x) \<le> 2 ^ (52 + ulp_shift y)"
      using lt by (intro power_increasing) simp_all
    then have "(2::rat) ^ (53 + ulp_shift x) * denorm_min \<le> 2 ^ (52 + ulp_shift y) * denorm_min"
      using denorm_min_pos by (intro mult_right_mono) simp_all
    then have "(2::rat) ^ 53 * ulp x \<le> 2 ^ 52 * ulp y"
      by (simp only: ulp_def power_add mult.assoc)
    then show ?thesis using rx ry by linarith
  qed
qed

lemma round_to_double_representable:
  assumes "0 \<le> m" and "m < 2 ^ 53" and "x = of_int m * 2 ^ t * denorm_min"
  shows "round_to_double x = x"
proof -
  have x0: "0 \<le> x" using assms(1,3) denorm_min_pos by simp
  have "x / denorm_min = of_int (m * 2 ^ t)"
    using denorm_min_pos by (simp add: assms(3))
  moreover have "m * 2 ^ t < 2 ^ 53 * 2 ^ t"
    using assms(2) by (intro mult_strict_right_mono) simp_all
  ultimately have "\<lfloor>\<bar>x\<bar> / denorm_min\<rfloor> < 2 ^ (53 + t)"
    using x0 by (simp only: abs_of_nonneg floor_of_int power_add)
  then have "bitlen \<lfloor>\<bar>x\<bar> / denorm_min\<rfloor> \<le> int (53 + t)"
    by (simp only: bitlen_le_nat)
  then have st: "ulp_shift x \<le> t" by (simp add: ulp_shift_def)
  have "x / ulp x = of_int m * (2 ^ t / 2 ^ ulp_shift x)"
    using denorm_min_pos by (simp add: assms(3) ulp_def)
  also have "(2::rat) ^ t / 2 ^ ulp_shift x = 2 ^ (t - ulp_shift x)"
    using st by (simp add: power_diff)
  finally have "x / ulp x = of_int (m * 2 ^ (t - ulp_shift x))" by simp
  then have "rne (x / ulp x) = m * 2 ^ (t - ulp_shift x)" by (simp only: rne_of_int)
  then have "round_to_double x = of_int m * (2 ^ (t - ulp_shift x) * 2 ^ ulp_shift x) * denorm_min"
    by (simp add: round_to_double_nonneg_eq [OF x0] ulp_def)
  also have "(2::rat) ^ (t - ulp_shift x) * 2 ^ ulp_shift x = 2 ^ t"
    using st by (simp add: power_add [symmetric])
  finally show ?thesis by (simp only: assms(3))
qed

lemma one_denorm: "(1::rat) = 2 ^ 1074 * denorm_min"
  by (simp add: denorm_min_def)

lemma round_to_double_of_int:
  assumes "0 \<le> k" and "k \<le> 2 ^ 53"
  shows "round_to_double (of_int k) = of_int k"
proof (cases "k = 2 ^ 53")
  case True
  have "(of_int k :: rat) = of_int (2 ^ 52) * 2 ^ 1075 * denorm_min"
    by (simp add: True denorm_min_def)
  then show ?thesis by (intro round_to_double_representable [of "2 ^ 52" _ 1075]) simp_all
next
  case False
  then have "k < 2 ^ 53" using assms(2) by simp
  moreover have "(of_int k :: rat) = of_int k * 2 ^ 1074 * denorm_min"
    by (simp add: denorm_min_def)
  ultimately show ?thesis using assms(1) by (intro round_to_double_representable [of k _ 1074])
qed

lemma round_to_double_max: "round_to_double max_double = max_double"
proof -
  have "max_double = of_int (2 ^ 53 - 1) * 2 ^ 2045 * denorm_min"
    by (simp add: max_double_def denorm_min_def)
  then show ?thesis by (intro round_to_double_representable [of "2 ^ 53 - 1" _ 2045]) simp_all
qed

lemma round_double_finite:
  assumes "\<bar>x\<bar> \<le> max_double"
  shows "round_double x = Some (round_to_double x)"
proof -
  have "round_to_double \<bar>x\<bar> \<le> round_to_double max_double"
    using assms by (intro round_to_double_mono_nonneg) simp_all
  then have le: "round_to_double \<bar>x\<bar> \<le> max_double" by (simp only: round_to_double_max)
  have "\<bar>round_to_double x\<bar> = round_to_double \<bar>x\<bar>"
  proof (cases "0 \<le> x")
    case True
    then show ?thesis using round_to_double_nonneg [of x] by simp
  next
    case False
    then have "0 \<le> - x" by simp
    then have "0 \<le> round_to_double (- x)" by (rule round_to_double_nonneg)
    then show ?thesis using False by (simp add: round_to_double_minus)
  qed
  then show ?thesis using le by (simp add: round_double_def)
qed

lemma round_to_double_error:
  assumes "0 \<le> x"
  shows "\<bar>round_to_double x - x\<bar> \<le> ulp x / 2"
proof -
  have "\<bar>of_int (rne (x / ulp x)) - x / ulp x\<bar> * ulp x \<le> 1 / 2 * ulp x"
    using rne_bounds [of "x / ulp x"] ulp_pos [of x] by (intro mult_right_mono) simp_all
  moreover have "\<bar>of_int (rne (x / ulp x)) - x / ulp x\<bar> * ulp x
                 = \<bar>of_int (rne (x / ulp x)) * ulp x - x\<bar>"
  proof -
    have "\<bar>of_int (rne (x / ulp x)) - x / ulp x\<bar> * ulp x
          = \<bar>(of_int (rne (x / ulp x)) - x / ulp x) * ulp x\<bar>"
      using ulp_pos [of x] by (simp add: abs_mult)
    also have "(of_int (rne (x / ulp x)) - x / ulp x) * ulp x
               = of_int (rne (x / ulp x)) * ulp x - x"
      using ulp_pos [of x] by (simp add: left_diff_distrib)
    finally show ?thesis .
  qed
  ultimately show ?thesis by (simp add: round_to_double_nonneg_eq [OF assms])
qed

text \<open>Quotients between 0 and 1.\<close>

lemma round_to_double_unit:
  assumes "0 \<le> q" and "q \<le> 1"
  shows "0 \<le> round_to_double q \<and> round_to_double q \<le> 1
         \<and> \<bar>round_to_double q - q\<bar> \<le> 1 / 2 ^ 54
         \<and> round_double q = Some (round_to_double q)"
proof -
  have r1: "round_to_double 1 = 1"
    using round_to_double_of_int [of 1] by simp
  have lo: "0 \<le> round_to_double q" using assms(1) by (rule round_to_double_nonneg)
  have hi: "round_to_double q \<le> 1"
    using round_to_double_mono_nonneg [OF assms] by (simp only: r1)
  have err: "\<bar>round_to_double q - q\<bar> \<le> 1 / 2 ^ 54"
  proof (cases "q = 1")
    case True
    then show ?thesis by (simp add: r1)
  next
    case False
    then have "q < 1" using assms(2) by simp
    then have "q < 2 ^ 1074 * denorm_min" by (simp only: one_denorm [symmetric])
    then have "q / denorm_min < 2 ^ 1074"
      using denorm_min_pos by (simp only: pos_divide_less_eq)
    then have "\<lfloor>\<bar>q\<bar> / denorm_min\<rfloor> < 2 ^ 1074"
      using assms(1) by (simp add: floor_less_iff)
    then have "bitlen \<lfloor>\<bar>q\<bar> / denorm_min\<rfloor> \<le> int 1074"
      by (simp only: bitlen_le_nat)
    then have "ulp_shift q \<le> 1021" by (simp add: ulp_shift_def)
    then have "(2::rat) ^ ulp_shift q \<le> 2 ^ 1021" by (intro power_increasing) simp_all
    then have "ulp q \<le> 2 ^ 1021 * denorm_min"
      unfolding ulp_def using denorm_min_pos by (intro mult_right_mono) simp_all
    also have "\<dots> = 1 / 2 ^ 53" by (simp add: denorm_min_def)
    finally have "ulp q / 2 \<le> 1 / 2 ^ 54" by simp
    then show ?thesis using round_to_double_error [OF assms(1)] by linarith
  qed
  have "1 \<le> max_double" by (simp add: max_double_def)
  then have "\<bar>q\<bar> \<le> max_double" using assms by simp
  then have "round_double q = Some (round_to_double q)" by (rule round_double_finite)
  then show ?thesis using lo hi err by simp
qed

text \<open>Evaluation at a given number.\<close>

lemma round_to_doubleI:
  assumes "0 \<le> x" and "q \<le> p + 1074"
    and "2 ^ 52 \<le> x * 2 ^ q / 2 ^ p" and "x * 2 ^ q / 2 ^ p < 2 ^ 53"
  shows "round_to_double x = of_int (rne (x * 2 ^ q / 2 ^ p)) * 2 ^ p / 2 ^ q"
proof -
  define t where "t = p + 1074 - q"
  have tq: "t + q = p + 1074" using assms(2) by (simp add: t_def)
  have "(2::rat) ^ t * 2 ^ q = 2 ^ p * 2 ^ 1074"
    by (simp only: power_add [symmetric] tq)
  then have u: "(2::rat) ^ t * denorm_min = 2 ^ p / 2 ^ q"
    by (simp add: denorm_min_def field_simps)
  have xs: "x / denorm_min = x * 2 ^ q / 2 ^ p * 2 ^ t"
  proof -
    have "x * 2 ^ q / 2 ^ p * 2 ^ t * denorm_min = x * 2 ^ q / 2 ^ p * (2 ^ t * denorm_min)"
      by simp
    also have "\<dots> = x" by (simp only: u) simp
    finally have a: "x * 2 ^ q / 2 ^ p * 2 ^ t * denorm_min = x" .
    have nz: "denorm_min \<noteq> 0" using denorm_min_pos by simp
    have "x / denorm_min = x * 2 ^ q / 2 ^ p * 2 ^ t * denorm_min / denorm_min"
      by (simp only: a)
    also have "\<dots> = x * 2 ^ q / 2 ^ p * 2 ^ t"
      using nz by (rule nonzero_mult_div_cancel_right)
    finally show ?thesis .
  qed
  have "2 ^ 52 * 2 ^ t \<le> x * 2 ^ q / 2 ^ p * 2 ^ t"
    using assms(3) by (intro mult_right_mono) simp_all
  then have ge: "2 ^ (52 + t) \<le> x / denorm_min" by (simp only: xs power_add)
  have "x * 2 ^ q / 2 ^ p * 2 ^ t < 2 ^ 53 * 2 ^ t"
    using assms(4) by (intro mult_strict_right_mono) simp_all
  then have lt: "x / denorm_min < 2 ^ (53 + t)" by (simp only: xs power_add)
  have "ulp_shift x = t" using assms(1) ge lt by (rule shift_eqI)
  then have "ulp x = 2 ^ p / 2 ^ q" by (simp only: ulp_def u)
  then show ?thesis by (simp add: round_to_double_nonneg_eq [OF assms(1)])
qed

lemma rne_eqI:
  assumes "\<lfloor>y\<rfloor> = n"
  shows "rne y = (if y - of_int n < 1 / 2 then n else if 1 / 2 < y - of_int n then n + 1
                  else if even n then n else n + 1)"
  using assms by (simp add: rne_def)

lemma round_double_eqI:
  assumes "0 \<le> x" and "q \<le> 1074" and "2 ^ 52 \<le> x * 2 ^ q" and "x * 2 ^ q < 2 ^ 53"
    and "\<lfloor>x * 2 ^ q\<rfloor> = n"
    and "m = (if x * 2 ^ q - of_int n < 1 / 2 then n
              else if 1 / 2 < x * 2 ^ q - of_int n then n + 1
              else if even n then n else n + 1)"
  shows "round_double x = Some (of_int m / 2 ^ q)"
proof -
  have "rne (x * 2 ^ q) = m"
    by (simp only: rne_eqI [OF assms(5)] assms(6))
  then have r: "round_to_double x = of_int m / 2 ^ q"
    using round_to_doubleI [of x q 0] assms(1-4) by simp
  have "x * 1 \<le> x * 2 ^ q"
    using assms(1) by (intro mult_left_mono) simp_all
  then have "x \<le> 2 ^ 53" using assms(4) by simp
  moreover have "(2::rat) ^ 53 \<le> max_double" by (simp add: max_double_def)
  ultimately have "\<bar>x\<bar> \<le> max_double" using assms(1) by simp
  then show ?thesis by (simp add: round_double_finite r)
qed

lemma round_double_0: "round_double 0 = Some 0"
  by (simp add: round_double_def round_to_double_def max_double_def)

lemma round_double_minus: "round_double (- x) = map_option uminus (round_double x)"
  by (simp add: round_double_def round_to_double_minus Let_def)

lemma float_of_int_exact:
  assumes "0 \<le> k" and "k \<le> 2 ^ 53"
  shows "float_of_int k = Some (of_int k)"
proof -
  have "(of_int k :: rat) \<le> of_int (2 ^ 53)" using assms(2) by (simp only: of_int_le_iff)
  moreover have "(2::rat) ^ 53 \<le> max_double" by (simp add: max_double_def)
  ultimately have "\<bar>of_int k :: rat\<bar> \<le> max_double" using assms(1) by simp
  then show ?thesis
    by (simp add: float_of_int_def round_double_finite round_to_double_of_int [OF assms])
qed

lemma round_double_1: "round_double 1 = Some 1"
  using float_of_int_exact [of 1] by (simp add: float_of_int_def)

text \<open>The quotient of two counts, the first not above the second.\<close>

lemma int_truediv_unit:
  assumes "c \<le> n" and "0 < n"
  shows "int_truediv (int c) (int n) = Inr (round_to_double (of_nat c / of_nat n))"
    and "0 \<le> round_to_double (of_nat c / of_nat n)"
    and "round_to_double (of_nat c / of_nat n) \<le> 1"
    and "\<bar>round_to_double (of_nat c / of_nat n) - of_nat c / of_nat n\<bar> \<le> 1 / 2 ^ 54"
    and "round_double (of_nat c / of_nat n) = Some (round_to_double (of_nat c / of_nat n))"
proof -
  have "(of_nat c :: rat) \<le> of_nat n" using assms(1) by (rule of_nat_mono)
  then have q: "0 \<le> (of_nat c :: rat) / of_nat n" "(of_nat c :: rat) / of_nat n \<le> 1"
    using assms(2) by (simp_all add: divide_le_eq_1)
  note u = round_to_double_unit [OF q]
  show "int_truediv (int c) (int n) = Inr (round_to_double (of_nat c / of_nat n))"
    using assms(2) u by (simp add: int_truediv_def)
  show "0 \<le> round_to_double (of_nat c / of_nat n)" using u by simp
  show "round_to_double (of_nat c / of_nat n) \<le> 1" using u by simp
  show "\<bar>round_to_double (of_nat c / of_nat n) - of_nat c / of_nat n\<bar> \<le> 1 / 2 ^ 54"
    using u by simp
  show "round_double (of_nat c / of_nat n) = Some (round_to_double (of_nat c / of_nat n))"
    using u by simp
qed

lemma abs_diff_two:
  fixes a s c e :: rat
  assumes "\<bar>a - c\<bar> \<le> e" and "\<bar>s - c\<bar> \<le> e"
  shows "\<bar>a - s\<bar> \<le> 2 * e"
  using assms by linarith

text \<open>
  The weighted sum of the rounded quotients differs from that of the exact quotients by at
  most \<open>1 / 2 ^ 54\<close> times the sum of the weights.
\<close>

lemma weighted_sum_error:
  fixes r q w :: "'a \<Rightarrow> rat"
  assumes "\<forall>x \<in> set xs. \<bar>r x - q x\<bar> \<le> e \<and> 0 \<le> w x"
  shows "\<bar>(\<Sum>x\<leftarrow>xs. r x * w x) - (\<Sum>x\<leftarrow>xs. q x * w x)\<bar> \<le> e * (\<Sum>x\<leftarrow>xs. w x)"
  using assms
proof (induction xs)
  case Nil
  then show ?case by simp
next
  case (Cons x xs)
  have ih: "\<bar>(\<Sum>x\<leftarrow>xs. r x * w x) - (\<Sum>x\<leftarrow>xs. q x * w x)\<bar> \<le> e * (\<Sum>x\<leftarrow>xs. w x)"
    using Cons by simp
  have x: "\<bar>r x - q x\<bar> \<le> e" "0 \<le> w x" using Cons.prems by simp_all
  have "\<bar>r x * w x - q x * w x\<bar> = \<bar>r x - q x\<bar> * w x"
    using x(2) by (simp add: left_diff_distrib [symmetric] abs_mult)
  also have "\<dots> \<le> e * w x" using x by (intro mult_right_mono)
  finally have hd: "\<bar>r x * w x - q x * w x\<bar> \<le> e * w x" .
  have "\<bar>(\<Sum>x\<leftarrow>x # xs. r x * w x) - (\<Sum>x\<leftarrow>x # xs. q x * w x)\<bar>
        = \<bar>(r x * w x - q x * w x) + ((\<Sum>x\<leftarrow>xs. r x * w x) - (\<Sum>x\<leftarrow>xs. q x * w x))\<bar>"
    by simp
  also have "\<dots> \<le> \<bar>r x * w x - q x * w x\<bar> + \<bar>(\<Sum>x\<leftarrow>xs. r x * w x) - (\<Sum>x\<leftarrow>xs. q x * w x)\<bar>"
    by (rule abs_triangle_ineq)
  also have "\<dots> \<le> e * w x + e * (\<Sum>x\<leftarrow>xs. w x)" using hd ih by linarith
  also have "\<dots> = e * (\<Sum>x\<leftarrow>x # xs. w x)" by (simp add: distrib_left)
  finally show ?case .
qed

text \<open>The doubles of some decimal fractions and of their products.\<close>

lemma double_0_02: "round_double (2 / 100) = Some (5764607523034235 / 2 ^ 58)"
  using round_double_eqI [of "2 / 100" 58 5764607523034234 5764607523034235]
  by (simp add: floor_eq_iff)

lemma double_3_times_0_02:
  "round_double (3 * (5764607523034235 / 2 ^ 58)) = Some (1080863910568919 / 2 ^ 54)"
  using round_double_eqI [of "3 * (5764607523034235 / 2 ^ 58)" 57 8646911284551352 8646911284551352]
  by (simp add: floor_eq_iff)

lemma double_0_06: "round_double (6 / 100) = Some (1080863910568919 / 2 ^ 54)"
  using round_double_eqI [of "6 / 100" 57 8646911284551352 8646911284551352]
  by (simp add: floor_eq_iff)

lemma double_0_06_times_50: "round_double (1080863910568919 / 2 ^ 54 * 50) = Some 3"
  using round_double_eqI [of "1080863910568919 / 2 ^ 54 * 50" 51 6755399441055743 6755399441055744]
  by (simp add: floor_eq_iff)

lemma double_0_29: "round_double (29 / 100) = Some (5224175567749775 / 2 ^ 54)"
  using round_double_eqI [of "29 / 100" 54 5224175567749775 5224175567749775]
  by (simp add: floor_eq_iff)

lemma double_0_29_times_100:
  "round_double (5224175567749775 / 2 ^ 54 * 100) = Some (8162774324609023 / 2 ^ 48)"
  using round_double_eqI [of "5224175567749775 / 2 ^ 54 * 100" 48 8162774324609023 8162774324609023]
  by (simp add: floor_eq_iff)

lemma double_3_2: "round_double (3 / 2) = Some (3 / 2)"
  using round_double_eqI [of "3 / 2" 52 6755399441055744 6755399441055744]
  by (simp add: floor_eq_iff)

lemma float_of_int_3: "float_of_int 3 = Some 3"
  using float_of_int_exact [of 3] by simp

lemma float_of_int_50: "float_of_int 50 = Some 50"
  using float_of_int_exact [of 50] by simp

lemma float_of_int_100: "float_of_int 100 = Some 100"
  using float_of_int_exact [of 100] by simp

lemma double_1_3: "round_double (1 / 3) = Some (6004799503160661 / 2 ^ 54)"
  using round_double_eqI [of "1 / 3" 54 6004799503160661 6004799503160661]
  by (simp add: floor_eq_iff)

lemma double_1_2: "round_double (1 / 2) = Some (1 / 2)"
  using round_double_eqI [of "1 / 2" 53 4503599627370496 4503599627370496]
  by (simp add: floor_eq_iff)

lemma double_7_12: "round_double (7 / 12) = Some (5254199565265579 / 2 ^ 53)"
  using round_double_eqI [of "7 / 12" 53 5254199565265578 5254199565265579]
  by (simp add: floor_eq_iff)

lemma double_13_23: "round_double (13 / 23) = Some (5091025665723169 / 2 ^ 53)"
  using round_double_eqI [of "13 / 23" 53 5091025665723169 5091025665723169]
  by (simp add: floor_eq_iff)

lemma double_13_23_times_23:
  "round_double (5091025665723169 / 2 ^ 53 * 23) = Some (7318349394477055 / 2 ^ 49)"
  using round_double_eqI [of "5091025665723169 / 2 ^ 53 * 23" 49 7318349394477055 7318349394477055]
  by (simp add: floor_eq_iff)

lemma double_sum_14: "round_double (1 + 7318349394477055 / 2 ^ 49) = Some (7881299347898367 / 2 ^ 49)"
  using round_double_eqI [of "1 + 7318349394477055 / 2 ^ 49" 49 7881299347898367 7881299347898367]
  by (simp add: floor_eq_iff)

lemma double_sum_14_by_24:
  "round_double (7881299347898367 / 2 ^ 49 / 24) = Some (5254199565265578 / 2 ^ 53)"
  using round_double_eqI [of "7881299347898367 / 2 ^ 49 / 24" 53 5254199565265578 5254199565265578]
  by (simp add: floor_eq_iff)

section \<open>Sort and slice\<close>

lemma sorted_py_mset: "mset (sorted_py key reverse xs) = mset xs"
  by (simp add: sorted_py_def)

lemma sorted_py_increasing: "sorted (map key (sorted_py key False xs))"
  by (simp add: sorted_py_def)

lemma sorted_py_decreasing: "sorted (rev (map key (sorted_py key True xs)))"
  by (simp add: sorted_py_def rev_map [symmetric])

lemma sorted_py_stable:
  "filter (\<lambda>y. key y = k) (sorted_py key reverse xs) = filter (\<lambda>y. key y = k) xs"
proof (cases reverse)
  case True
  have "filter (\<lambda>y. key y = k) (rev (sort_key key (rev xs)))
        = rev (filter (\<lambda>y. key y = k) (sort_key key (rev xs)))"
    by (simp add: rev_filter)
  also have "\<dots> = rev (filter (\<lambda>y. key y = k) (rev xs))"
    by (simp only: sort_key_stable)
  also have "\<dots> = filter (\<lambda>y. key y = k) xs"
    by (simp add: rev_filter)
  finally show ?thesis using True by (simp add: sorted_py_def)
next
  case False
  then show ?thesis by (simp add: sorted_py_def sort_key_stable)
qed

lemma ablation_indices_length:
  "ablation_indices n scores order = Inr indices \<Longrightarrow> length indices = n"
  by (auto simp: ablation_indices_def sorted_py_def split: if_splits)

text \<open>
  The product of a fraction and the number of units, when that number has a double of its
  own and the product is within the range of the doubles.
\<close>

lemma float_product:
  assumes "n \<le> 2 ^ 53" and "\<bar>fraction\<bar> * of_nat n \<le> max_double"
  shows "float_of_int (int n) = Some (of_nat n)"
    and "float_mul fraction (of_nat n) = Some (round_to_double (fraction * of_nat n))"
proof -
  have "int n \<le> int (2 ^ 53)" using assms(1) by (rule of_nat_mono)
  then have "int n \<le> 2 ^ 53" by simp
  then show "float_of_int (int n) = Some (of_nat n)"
    using float_of_int_exact [of "int n"] by simp
  have "\<bar>fraction * of_nat n\<bar> \<le> max_double" using assms(2) by (simp add: abs_mult)
  then show "float_mul fraction (of_nat n) = Some (round_to_double (fraction * of_nat n))"
    by (simp add: float_mul_def round_double_finite)
qed

lemma ablated_nonneg:
  assumes "length indices \<le> 2 ^ 53" and "0 \<le> fraction"
    and "\<bar>fraction\<bar> * of_nat (length indices) \<le> max_double"
  shows "ablated indices fraction
         = Inr (take (nat \<lfloor>round_to_double (fraction * of_nat (length indices))\<rfloor>) indices)"
proof -
  have "0 \<le> fraction * of_nat (length indices)" using assms(2) by simp
  then have "0 \<le> round_to_double (fraction * of_nat (length indices))"
    by (rule round_to_double_nonneg)
  then show ?thesis
    by (simp add: ablated_def float_product [OF assms(1,3)] int_of_float_def slice_to_def)
qed

lemma ablated_returns:
  assumes "length indices \<le> 2 ^ 53" and "\<bar>fraction\<bar> * of_nat (length indices) \<le> max_double"
  shows "\<exists>units. ablated indices fraction = Inr units"
  by (simp add: ablated_def float_product [OF assms] int_of_float_def)

lemma sweep_loop_returns:
  assumes "\<forall>f \<in> set fractions. \<exists>units. ablated indices f = Inr units"
  shows "\<exists>sweep. sweep_loop indices fractions = Inr sweep \<and> length sweep = length fractions
           \<and> (\<forall>j < length fractions. ablated indices (fractions ! j) = Inr (sweep ! j))"
  using assms
proof (induction fractions)
  case Nil
  then show ?case by simp
next
  case (Cons f fractions)
  obtain units where u: "ablated indices f = Inr units" using Cons.prems by auto
  obtain sweep where s: "sweep_loop indices fractions = Inr sweep"
      "length sweep = length fractions"
      "\<forall>j < length fractions. ablated indices (fractions ! j) = Inr (sweep ! j)"
    using Cons.IH Cons.prems by auto
  have "\<forall>j < length (f # fractions). ablated indices ((f # fractions) ! j) = Inr ((units # sweep) ! j)"
    using u s(3) by (auto simp: nth_Cons split: nat.splits)
  then show ?case using u s(1,2) by simp
qed

text \<open>
  The integer part of a rounded product is that of the exact product or the next integer;
  beyond \<open>2 ^ 53\<close> both exceed any number of units.
\<close>

lemma floor_round_to_double:
  assumes "0 \<le> y"
  shows "\<lfloor>round_to_double y\<rfloor> = \<lfloor>y\<rfloor> \<or> \<lfloor>round_to_double y\<rfloor> = \<lfloor>y\<rfloor> + 1
         \<or> (2 ^ 53 \<le> \<lfloor>y\<rfloor> \<and> 2 ^ 53 \<le> \<lfloor>round_to_double y\<rfloor>)"
proof (cases "\<lfloor>y\<rfloor> + 1 \<le> 2 ^ 53")
  case True
  have k0: "0 \<le> \<lfloor>y\<rfloor>" using assms by simp
  have "round_to_double (of_int \<lfloor>y\<rfloor>) \<le> round_to_double y"
    using k0 by (intro round_to_double_mono_nonneg) simp_all
  then have lo: "of_int \<lfloor>y\<rfloor> \<le> round_to_double y"
    using round_to_double_of_int [of "\<lfloor>y\<rfloor>"] k0 True by simp
  have "y \<le> of_int (\<lfloor>y\<rfloor> + 1)" by linarith
  then have "round_to_double y \<le> round_to_double (of_int (\<lfloor>y\<rfloor> + 1))"
    using assms by (intro round_to_double_mono_nonneg)
  then have hi: "round_to_double y \<le> of_int (\<lfloor>y\<rfloor> + 1)"
    using round_to_double_of_int [of "\<lfloor>y\<rfloor> + 1"] k0 True by simp
  have "\<lfloor>y\<rfloor> \<le> \<lfloor>round_to_double y\<rfloor>" using lo by (simp add: le_floor_iff)
  moreover have "\<lfloor>round_to_double y\<rfloor> \<le> \<lfloor>y\<rfloor> + 1"
    using hi floor_mono [OF hi] by (simp only: floor_of_int)
  ultimately show ?thesis by linarith
next
  case False
  then have k: "2 ^ 53 \<le> \<lfloor>y\<rfloor>" by simp
  then have "of_int (2 ^ 53) \<le> y" by (simp only: le_floor_iff)
  then have "round_to_double (of_int (2 ^ 53)) \<le> round_to_double y"
    by (intro round_to_double_mono_nonneg) simp_all
  then have "of_int (2 ^ 53) \<le> round_to_double y"
    using round_to_double_of_int [of "2 ^ 53"] by simp
  then have "2 ^ 53 \<le> \<lfloor>round_to_double y\<rfloor>" by (simp only: le_floor_iff)
  then show ?thesis using k by simp
qed

lemma ablation_indices_equal_scores:
  "ablation_indices n (replicate n c) order = Inr [0..<n]"
proof -
  have m: "map (\<lambda>i. replicate n c ! i) [0..<n] = replicate n c"
    using map_nth [of "replicate n c"] by simp
  have "sorted (map (\<lambda>i. replicate n c ! i) [0..<n])"
    by (simp only: m sorted_replicate)
  then have inc: "sort_key (\<lambda>i. replicate n c ! i) [0..<n] = [0..<n]"
    by (rule sort_key_id_if_sorted)
  have "map (\<lambda>i. replicate n c ! i) (rev [0..<n]) = replicate n c"
    by (simp only: rev_map [symmetric] m rev_replicate)
  then have "sorted (map (\<lambda>i. replicate n c ! i) (rev [0..<n]))"
    by (simp only: sorted_replicate)
  then have "sort_key (\<lambda>i. replicate n c ! i) (rev [0..<n]) = rev [0..<n]"
    by (rule sort_key_id_if_sorted)
  then show ?thesis using inc by (simp add: ablation_indices_def sorted_py_def)
qed

text \<open>
  C1. With one score per caption, at most \<open>2 ^ 53\<close> captions and a sweep whose products
  \<open>f * N\<close> are within the range of the doubles, the ablated list of a fraction \<open>f \<ge> 0\<close>
  of the sweep is the first \<open>\<lfloor>x\<rfloor>\<close> entries of \<open>indices\<close>, where \<open>x\<close> is the float product
  of \<open>f\<close> and \<open>N\<close>, the double nearest to the exact product: these are the first
  \<open>\<lfloor>f * N\<rfloor>\<close> entries or the first \<open>\<lfloor>f * N\<rfloor> + 1\<close>. \<open>indices\<close> holds each of the \<open>N\<close> unit
  indices once, by decreasing score when the order is \<open>decreasing\<close> and by increasing
  score when it is \<open>increasing\<close>, units of equal score in the order of their indices.
\<close>

theorem ablated_is_sorted_prefix:
  assumes "length scores = n" and "n \<le> 2 ^ 53"
    and "\<forall>f \<in> set fractions. \<bar>f\<bar> * of_nat n \<le> max_double"
    and "j < length fractions" and "0 \<le> fractions ! j"
  shows "\<exists>indices sweep x.
           ablation_indices n scores order = Inr indices
         \<and> ablation_sweep n scores order fractions = Inr sweep
         \<and> float_mul (fractions ! j) (of_nat n) = Some x
         \<and> sweep ! j = take (nat \<lfloor>x\<rfloor>) indices
         \<and> (sweep ! j = take (nat \<lfloor>fractions ! j * of_nat n\<rfloor>) indices
            \<or> sweep ! j = take (nat \<lfloor>fractions ! j * of_nat n\<rfloor> + 1) indices)
         \<and> mset indices = mset [0..<n]
         \<and> (order = ORDER_DECREASING \<longrightarrow> sorted (rev (map (\<lambda>i. scores ! i) indices)))
         \<and> (order = ORDER_INCREASING \<longrightarrow> sorted (map (\<lambda>i. scores ! i) indices))
         \<and> (\<forall>k. filter (\<lambda>i. scores ! i = k) indices = filter (\<lambda>i. scores ! i = k) [0..<n])"
proof -
  define indices where
    "indices = sorted_py (\<lambda>i. scores ! i) (order = ORDER_DECREASING) [0..<n]"
  define y where "y = fractions ! j * of_nat n"
  define x where "x = round_to_double y"
  have ind: "ablation_indices n scores order = Inr indices"
    using assms(1) by (simp add: ablation_indices_def indices_def)
  have len: "length indices = n"
    using ind by (rule ablation_indices_length)
  have fin: "\<bar>f\<bar> * of_nat (length indices) \<le> max_double" if "f \<in> set fractions" for f
    using that assms(3) len by simp
  have "\<forall>f \<in> set fractions. \<exists>units. ablated indices f = Inr units"
    using ablated_returns [of indices] fin assms(2) len by simp
  then obtain sweep where sw: "sweep_loop indices fractions = Inr sweep"
    and nth: "\<forall>j < length fractions. ablated indices (fractions ! j) = Inr (sweep ! j)"
    using sweep_loop_returns [of fractions indices] by blast
  have sweep: "ablation_sweep n scores order fractions = Inr sweep"
    by (simp add: ablation_sweep_def ind sw)
  have fj: "fractions ! j \<in> set fractions" using assms(4) by simp
  have "ablated indices (fractions ! j) = Inr (take (nat \<lfloor>x\<rfloor>) indices)"
    using ablated_nonneg [of indices "fractions ! j"] fin [OF fj] assms(2,5) len
    by (simp add: x_def y_def)
  then have at_j: "sweep ! j = take (nat \<lfloor>x\<rfloor>) indices"
    using nth assms(4) by simp
  have prod: "float_mul (fractions ! j) (of_nat n) = Some x"
    using float_product(2) [of n "fractions ! j"] fin [OF fj] assms(2) len
    by (simp add: x_def y_def)
  have y0: "0 \<le> y" using assms(5) by (simp add: y_def)
  have near: "take (nat \<lfloor>x\<rfloor>) indices = take (nat \<lfloor>y\<rfloor>) indices
              \<or> take (nat \<lfloor>x\<rfloor>) indices = take (nat \<lfloor>y\<rfloor> + 1) indices"
  proof -
    have k0: "0 \<le> \<lfloor>y\<rfloor>" using y0 by simp
    consider "\<lfloor>x\<rfloor> = \<lfloor>y\<rfloor>" | "\<lfloor>x\<rfloor> = \<lfloor>y\<rfloor> + 1" | "2 ^ 53 \<le> \<lfloor>y\<rfloor>" "2 ^ 53 \<le> \<lfloor>x\<rfloor>"
      using floor_round_to_double [OF y0] unfolding x_def by blast
    then show ?thesis
    proof cases
      case 1
      then show ?thesis by simp
    next
      case 2
      then have "nat \<lfloor>x\<rfloor> = nat \<lfloor>y\<rfloor> + 1" using k0 by (simp add: nat_add_distrib)
      then show ?thesis by simp
    next
      case 3
      have "int n \<le> int (2 ^ 53)" using assms(2) by (rule of_nat_mono)
      then have "int n \<le> 2 ^ 53" by simp
      then have "n \<le> nat \<lfloor>x\<rfloor>" "n \<le> nat \<lfloor>y\<rfloor>" using 3 by linarith+
      then show ?thesis using len by simp
    qed
  qed
  have ms: "mset indices = mset [0..<n]"
    unfolding indices_def by (rule sorted_py_mset)
  have dec: "order = ORDER_DECREASING \<longrightarrow> sorted (rev (map (\<lambda>i. scores ! i) indices))"
    unfolding indices_def using sorted_py_decreasing [of "\<lambda>i. scores ! i" "[0..<n]"] by simp
  have inc: "order = ORDER_INCREASING \<longrightarrow> sorted (map (\<lambda>i. scores ! i) indices)"
    unfolding indices_def using sorted_py_increasing [of "\<lambda>i. scores ! i" "[0..<n]"]
    by (simp add: ORDER_INCREASING_def ORDER_DECREASING_def)
  have st: "\<forall>k. filter (\<lambda>i. scores ! i = k) indices = filter (\<lambda>i. scores ! i = k) [0..<n]"
    unfolding indices_def by (simp add: sorted_py_stable)
  show ?thesis
  proof (intro exI conjI)
    show "ablation_indices n scores order = Inr indices" by (rule ind)
    show "ablation_sweep n scores order fractions = Inr sweep" by (rule sweep)
    show "float_mul (fractions ! j) (of_nat n) = Some x" by (rule prod)
    show "sweep ! j = take (nat \<lfloor>x\<rfloor>) indices" by (rule at_j)
    show "sweep ! j = take (nat \<lfloor>fractions ! j * of_nat n\<rfloor>) indices
          \<or> sweep ! j = take (nat \<lfloor>fractions ! j * of_nat n\<rfloor> + 1) indices"
      using near unfolding at_j y_def .
    show "mset indices = mset [0..<n]" by (rule ms)
    show "order = ORDER_DECREASING \<longrightarrow> sorted (rev (map (\<lambda>i. scores ! i) indices))"
      by (rule dec)
    show "order = ORDER_INCREASING \<longrightarrow> sorted (map (\<lambda>i. scores ! i) indices)"
      by (rule inc)
    show "\<forall>k. filter (\<lambda>i. scores ! i = k) indices = filter (\<lambda>i. scores ! i = k) [0..<n]"
      by (rule st)
  qed
qed

theorem ablated_is_sorted_prefix_witness:
  "length [3, 1, 2 :: int] = 3 \<and> (3::nat) \<le> 2 ^ 53
   \<and> list_all (\<lambda>f. \<bar>f\<bar> * of_nat 3 \<le> max_double) [0, 1 / 2 :: rat]
   \<and> (1::nat) < length [0, 1 / 2 :: rat] \<and> 0 \<le> [0, 1 / 2 :: rat] ! 1
   \<and> ablation_indices 3 [3, 1, 2 :: int] ORDER_DECREASING = Inr [0, 2, 1]
   \<and> ablation_sweep 3 [3, 1, 2 :: int] ORDER_DECREASING [0, 1 / 2] = Inr [[], [0]]
   \<and> float_mul (1 / 2) 3 = Some (3 / 2)"
proof -
  have fl: "\<lfloor>3 / 2 :: rat\<rfloor> = 1" by (simp add: floor_eq_iff)
  have m: "0 \<le> max_double" "3 \<le> max_double * 2" by (simp_all add: max_double_def)
  show ?thesis
    using ablated_is_sorted_prefix [of "[3, 1, 2 :: int]" 3 "[0, 1 / 2]" 1 ORDER_DECREASING]
    by (simp add: ablation_sweep_def ablation_indices_def sorted_py_def ablated_def
        int_of_float_def slice_to_def upt_rec float_mul_def float_of_int_3 round_double_0
        double_3_2 fl m)
qed

text \<open>
  C1 as stated, with the first \<open>\<lfloor>f * N\<rfloor>\<close> entries, fails in three ways. With 50 units
  and the double \<open>0.06\<close>, which is also \<open>3 * 0.02\<close>, the fourth fraction of the default
  sweep, the float product is \<open>3.0\<close> and three units are ablated, where the exact product
  of that double and 50 is below 3. With 100 units and the double \<open>0.29\<close> the float
  product is below 29 and 28 units are ablated, where \<open>0.29 * 100\<close> is 29. With 3 units
  and the fraction \<open>- 0.5\<close> the product \<open>- 1.5\<close> is truncated to \<open>- 1\<close> and the slice
  keeps all units but the last.
\<close>

theorem ablated_is_sorted_prefix_counterexample:
  "round_double (2 / 100) = Some (5764607523034235 / 2 ^ 58)
   \<and> float_mul 3 (5764607523034235 / 2 ^ 58) = Some (1080863910568919 / 2 ^ 54)
   \<and> round_double (6 / 100) = Some (1080863910568919 / 2 ^ 54)
   \<and> ablation_sweep 50 (replicate 50 (0::int)) ORDER_DECREASING [1080863910568919 / 2 ^ 54]
       = Inr [[0, 1, 2]]
   \<and> \<lfloor>1080863910568919 / 2 ^ 54 * of_nat 50 :: rat\<rfloor> = 2
   \<and> round_double (29 / 100) = Some (5224175567749775 / 2 ^ 54)
   \<and> ablation_sweep 100 (replicate 100 (0::int)) ORDER_DECREASING [5224175567749775 / 2 ^ 54]
       = Inr [[0..<28]]
   \<and> \<lfloor>29 / 100 * of_nat 100 :: rat\<rfloor> = 29
   \<and> ablation_sweep 3 [3, 1, 2 :: int] ORDER_DECREASING [- 1 / 2] = Inr [[0, 2]]
   \<and> \<lfloor>- 1 / 2 * of_nat 3 :: rat\<rfloor> = - 2"
proof -
  have a: "ablated [0..<50] (1080863910568919 / 2 ^ 54) = Inr [0, 1, 2]"
    using double_0_06_times_50
    by (simp add: ablated_def float_of_int_50 float_mul_def int_of_float_def slice_to_def upt_rec)
  have fl_b: "\<lfloor>8162774324609023 / 2 ^ 48 :: rat\<rfloor> = 28" by (simp add: floor_eq_iff)
  have b: "ablated [0..<100] (5224175567749775 / 2 ^ 54) = Inr [0..<28]"
    using double_0_29_times_100 fl_b
    by (simp add: ablated_def float_of_int_100 float_mul_def int_of_float_def slice_to_def)
  have "round_double (- (3 / 2)) = Some (- (3 / 2))"
    by (simp only: round_double_minus double_3_2 option.map)
  moreover have "\<lceil>- (3 / 2) :: rat\<rceil> = - 1" by (simp add: ceiling_eq_iff)
  ultimately have c: "ablated [0, 2, 1] (- 1 / 2) = Inr [0, 2]"
    by (simp add: ablated_def float_of_int_3 float_mul_def int_of_float_def slice_to_def)
  have i3: "ablation_indices 3 [3, 1, 2 :: int] ORDER_DECREASING = Inr [0, 2, 1]"
    by (simp add: ablation_indices_def sorted_py_def upt_rec)
  have 1: "ablation_sweep 50 (replicate 50 (0::int)) ORDER_DECREASING [1080863910568919 / 2 ^ 54]
           = Inr [[0, 1, 2]]"
    by (simp only: ablation_sweep_def ablation_indices_equal_scores sum.case sweep_loop.simps a)
  have 2: "ablation_sweep 100 (replicate 100 (0::int)) ORDER_DECREASING [5224175567749775 / 2 ^ 54]
           = Inr [[0..<28]]"
    by (simp only: ablation_sweep_def ablation_indices_equal_scores sum.case sweep_loop.simps b)
  have 3: "ablation_sweep 3 [3, 1, 2 :: int] ORDER_DECREASING [- 1 / 2] = Inr [[0, 2]]"
    by (simp only: ablation_sweep_def i3 sum.case sweep_loop.simps c)
  have 4: "\<lfloor>1080863910568919 / 2 ^ 54 * of_nat 50 :: rat\<rfloor> = 2" by (simp add: floor_eq_iff)
  have 5: "\<lfloor>29 / 100 * of_nat 100 :: rat\<rfloor> = 29" by simp
  have 6: "\<lfloor>- 1 / 2 * of_nat 3 :: rat\<rfloor> = - 2" by (simp add: floor_eq_iff)
  have 7: "float_mul 3 (5764607523034235 / 2 ^ 58) = Some (1080863910568919 / 2 ^ 54)"
    by (simp only: float_mul_def double_3_times_0_02)
  show ?thesis
    using double_0_02 7 double_0_06 double_0_29 1 2 3 4 5 6 by (intro conjI)
qed




section \<open>Parse depth\<close>

lemma fold_max_nat: "fold max xs (d::nat) = max d (maxl xs)"
  unfolding maxl_def
proof (induction xs arbitrary: d)
  case Nil
  then show ?case by simp
next
  case (Cons x xs)
  have "fold max (x # xs) d = max (max x d) (fold max xs 0)"
    using Cons [of "max x d"] by simp
  moreover have "fold max (x # xs) 0 = max x (fold max xs 0)"
    using Cons [of "max x 0"] by simp
  ultimately show ?case by (simp add: max.assoc max.left_commute)
qed

lemma maxl_Nil: "maxl [] = 0"
  by (simp add: maxl_def)

lemma maxl_Cons: "maxl (x # xs) = max x (maxl xs)"
  using fold_max_nat [of xs "max x 0"] by (simp add: maxl_def)

lemma maxl_append: "maxl (xs @ ys) = max (maxl xs) (maxl ys)"
  by (induction xs) (simp_all add: maxl_Nil maxl_Cons max.assoc)

lemma maxl_Max: "maxl xs = Max (insert 0 (set xs))"
  by (induction xs) (simp_all add: maxl_Nil maxl_Cons insert_commute)

lemma maxl_shift: "max k (maxl (map (\<lambda>x. k + f x) xs)) = k + maxl (map f xs)"
  by (induction xs) (auto simp: maxl_Nil maxl_Cons)

lemma longest_path_maxl:
  "longest_path t = maxl (map (\<lambda>c. Suc (longest_path c)) (children t))"
  by (cases t) (simp add: maxl_Max)

text \<open>
  The loop invariant: the loop returns the largest of \<open>deepest\<close> and, over the entries
  \<open>(t, d)\<close> still on the frontier, \<open>d\<close> plus the longest path below \<open>t\<close>.
\<close>

lemma parse_depth_loop_maxl:
  "parse_depth_loop frontier deepest
   = max deepest (maxl (map (\<lambda>(t, d). d + longest_path t) frontier))"
proof (induction frontier deepest rule: parse_depth_loop.induct)
  case (1 frontier deepest)
  show ?case
  proof (cases "frontier = []")
    case True
    then show ?thesis by (simp add: maxl_Nil parse_depth_loop.simps [of "[]"])
  next
    case False
    obtain current depth where l: "last frontier = (current, depth)"
      by (cases "last frontier")
    have fr: "frontier = butlast frontier @ [(current, depth)]"
      using False l by (metis append_butlast_last_id)
    let ?g = "\<lambda>(t, d). d + longest_path t"
    let ?fr' = "butlast frontier @ map (\<lambda>child. (child, depth + 1)) (children current)"
    let ?d' = "if depth > deepest then depth else deepest"
    have step: "parse_depth_loop frontier deepest = parse_depth_loop ?fr' ?d'"
      using False l by (subst parse_depth_loop.simps) simp
    have ih: "parse_depth_loop ?fr' ?d' = max ?d' (maxl (map ?g ?fr'))"
      using "1.IH" [OF False l [symmetric]] by simp
    have new: "maxl (map ?g ?fr')
               = max (maxl (map ?g (butlast frontier)))
                     (maxl (map (\<lambda>ch. depth + Suc (longest_path ch)) (children current)))"
      by (simp add: maxl_append comp_def)
    have cur: "max depth (maxl (map (\<lambda>ch. depth + Suc (longest_path ch)) (children current)))
               = depth + longest_path current"
      using maxl_shift [of depth "\<lambda>c. Suc (longest_path c)" "children current"]
      by (simp add: longest_path_maxl [of current])
    have old: "maxl (map ?g frontier)
               = max (maxl (map ?g (butlast frontier))) (depth + longest_path current)"
      by (subst fr) (simp add: maxl_append maxl_Cons maxl_Nil)
    show ?thesis
      unfolding step ih new old cur [symmetric] by (simp add: max_def)
  qed
qed

text \<open>
  C7. The parse-depth score of a caption is the number of edges on the longest path from
  its ROOT token (the last token labelled \<open>ROOT\<close>) down to a descendant, 0 when the ROOT has
  no children.
\<close>

theorem parse_depth_is_longest_path:
  assumes "tokens = before @ root_tok # after"
    and "dep root_tok = ''ROOT''"
    and "\<forall>t \<in> set after. dep t \<noteq> ''ROOT''"
  shows "parse_depth tokens = Inr (longest_path root_tok)
         \<and> (children root_tok = [] \<longrightarrow> parse_depth tokens = Inr 0)"
proof -
  have none: "fold (\<lambda>token r. if dep token = ''ROOT'' then Some token else r) after r = r" for r
    using assms(3) by (induction after arbitrary: r) auto
  have "find_root tokens = Some root_tok"
    using assms(1,2) none by (simp add: find_root_def)
  then have "parse_depth tokens = Inr (longest_path root_tok)"
    by (simp add: parse_depth_def parse_depth_loop_maxl maxl_Cons maxl_Nil)
  moreover have "children root_tok = [] \<longrightarrow> longest_path root_tok = 0"
    by (cases root_tok) simp
  ultimately show ?thesis by simp
qed

theorem parse_depth_is_longest_path_witness:
  "[Token ''det'' [], Token ''ROOT'' [Token ''det'' [], Token ''prep'' [Token ''pobj'' []]],
    Token ''prep'' [Token ''pobj'' []], Token ''pobj'' []]
   = [Token ''det'' []] @ Token ''ROOT'' [Token ''det'' [], Token ''prep'' [Token ''pobj'' []]]
       # [Token ''prep'' [Token ''pobj'' []], Token ''pobj'' []]
   \<and> dep (Token ''ROOT'' [Token ''det'' [], Token ''prep'' [Token ''pobj'' []]]) = ''ROOT''
   \<and> list_all (\<lambda>t. dep t \<noteq> ''ROOT'') [Token ''prep'' [Token ''pobj'' []], Token ''pobj'' []]
   \<and> parse_depth
        [Token ''det'' [], Token ''ROOT'' [Token ''det'' [], Token ''prep'' [Token ''pobj'' []]],
         Token ''prep'' [Token ''pobj'' []], Token ''pobj'' []] = Inr 2"
  using parse_depth_is_longest_path
    [of "[Token ''det'' [], Token ''ROOT'' [Token ''det'' [], Token ''prep'' [Token ''pobj'' []]],
          Token ''prep'' [Token ''pobj'' []], Token ''pobj'' []]"
        "[Token ''det'' []]"
        "Token ''ROOT'' [Token ''det'' [], Token ''prep'' [Token ''pobj'' []]]"
        "[Token ''prep'' [Token ''pobj'' []], Token ''pobj'' []]"]
  by simp

section \<open>\<open>ImageClassifier.accuracy\<close>\<close>

lemma tensor_eq_same_length:
  "length xs = length ys \<Longrightarrow> tensor_eq xs ys = Inr (map (\<lambda>(x, y). x = y) (zip xs ys))"
  by (simp add: tensor_eq_def)

lemma count_matches:
  assumes "length xs = length ys"
  shows "length (filter (\<lambda>b. b) (map (\<lambda>(x, y). x = y) (zip xs ys)))
         = card {i. i < length ys \<and> xs ! i = ys ! i}"
proof -
  have "length (filter (\<lambda>b. b) (map (\<lambda>(x, y). x = y) (zip xs ys)))
        = length (filter (\<lambda>(x, y). x = y) (zip xs ys))"
    by (simp add: filter_map comp_def case_prod_unfold)
  also have "\<dots> = card {i. i < length (zip xs ys) \<and> (\<lambda>(x, y). x = y) (zip xs ys ! i)}"
    by (rule length_filter_conv_card)
  also have "{i. i < length (zip xs ys) \<and> (\<lambda>(x, y). x = y) (zip xs ys ! i)}
             = {i. i < length ys \<and> xs ! i = ys ! i}"
    using assms by auto
  finally show ?thesis .
qed

text \<open>
  C3. For a dataset of size \<open>n \<ge> 1\<close> and precomputed predictions of length \<open>n\<close>,
  \<open>accuracy\<close> returns the number of indices at which the prediction equals the target,
  divided by \<open>n\<close>, as a float: the double nearest to that quotient, within \<open>1 / 2 ^ 54\<close>
  of it; the value lies between 0 and 1.
\<close>

theorem accuracy_is_fraction_correct:
  assumes "dataset \<noteq> []" and "length predictions = length dataset"
  shows "\<exists>a. accuracy self_predict dataset (Some predictions) = Inr a
           \<and> round_double
                 (of_nat (card {i. i < length dataset \<and> predictions ! i = snd (dataset ! i)})
                  / of_nat (length dataset)) = Some a
           \<and> \<bar>a - of_nat (card {i. i < length dataset \<and> predictions ! i = snd (dataset ! i)})
                    / of_nat (length dataset)\<bar> \<le> 1 / 2 ^ 54
           \<and> 0 \<le> a \<and> a \<le> 1"
proof -
  let ?targets = "map snd dataset"
  let ?S = "{i. i < length dataset \<and> predictions ! i = snd (dataset ! i)}"
  have len: "length predictions = length ?targets" using assms(2) by simp
  have S: "{i. i < length ?targets \<and> predictions ! i = ?targets ! i} = ?S"
    by auto
  have cnt: "length (filter (\<lambda>b. b) (map (\<lambda>(x, y). x = y) (zip predictions ?targets))) = card ?S"
    using count_matches [OF len] S by simp
  have acc: "accuracy self_predict dataset (Some predictions)
             = int_truediv (int (card ?S)) (int (length dataset))"
    using cnt by (simp add: accuracy_def Let_def tensor_eq_same_length [OF len])
  have "?S \<subseteq> {0..<length dataset}" by auto
  then have le: "card ?S \<le> length dataset"
    using card_mono [of "{0..<length dataset}" ?S] by simp
  have pos: "0 < length dataset" using assms(1) by simp
  show ?thesis
    using int_truediv_unit [OF le pos] by (simp only: acc) blast
qed

theorem accuracy_is_fraction_correct_witness:
  "[(''a'', 0), (''b'', 1), (''c'', 0 :: int)] \<noteq> []
   \<and> length [0, 0, 1 :: int] = length [(''a'', 0), (''b'', 1), (''c'', 0 :: int)]
   \<and> accuracy (\<lambda>d. Inl RuntimeError) [(''a'', 0), (''b'', 1), (''c'', 0)] (Some [0, 0, 1])
       = Inr (6004799503160661 / 2 ^ 54)"
  using accuracy_is_fraction_correct
    [of "[(''a'', 0), (''b'', 1), (''c'', 0 :: int)]" "[0, 0, 1]" "\<lambda>d. Inl RuntimeError"]
  by (simp add: accuracy_def tensor_eq_def Let_def int_truediv_def double_1_3)

section \<open>\<open>ImageClassifier.accuracies\<close>\<close>

lemma dict_get0_add:
  "dict_get0 (dict_add d k v) k' = dict_get0 d k' + (if k' = k then v else 0)"
  by (simp add: dict_get0_def dict_add_def update_conv')

lemma keys_dict_add: "fst ` set (dict_add d k v) = insert k (fst ` set d)"
  using dom_update [of k "dict_get0 d k + v" d] by (simp add: dict_add_def)

lemma distinct_dict_add: "distinct (map fst d) \<Longrightarrow> distinct (map fst (dict_add d k v))"
  by (simp add: dict_add_def distinct_update)

lemma accuracies_loop_keys:
  "accuracies_loop zs (correct, totals) = (correct', totals') \<Longrightarrow>
     fst ` set correct' = fst ` set correct \<union> snd ` set zs
   \<and> fst ` set totals' = fst ` set totals \<union> snd ` set zs"
proof (induction zs arbitrary: correct totals)
  case Nil
  then show ?case by simp
next
  case (Cons z zs)
  obtain prediction target where z: "z = (prediction, target)" by (cases z)
  show ?case
    using Cons.IH [of "dict_add correct target (if prediction = target then 1 else 0)"
                      "dict_add totals target 1"] Cons.prems
    by (simp add: z keys_dict_add)
qed

lemma accuracies_loop_distinct:
  "accuracies_loop zs (correct, totals) = (correct', totals') \<Longrightarrow>
   distinct (map fst correct) \<Longrightarrow> distinct (map fst correct')"
proof (induction zs arbitrary: correct totals)
  case Nil
  then show ?case by simp
next
  case (Cons z zs)
  obtain prediction target where z: "z = (prediction, target)" by (cases z)
  show ?case
    using Cons.IH [of "dict_add correct target (if prediction = target then 1 else 0)"
                      "dict_add totals target 1"] Cons.prems
    by (simp add: z distinct_dict_add)
qed

lemma accuracies_loop_counts:
  "accuracies_loop zs (correct, totals) = (correct', totals') \<Longrightarrow>
     dict_get0 correct' k
       = dict_get0 correct k + length (filter (\<lambda>(p, t). t = k \<and> p = t) zs)
   \<and> dict_get0 totals' k = dict_get0 totals k + length (filter (\<lambda>(p, t). t = k) zs)"
proof (induction zs arbitrary: correct totals)
  case Nil
  then show ?case by simp
next
  case (Cons z zs)
  obtain prediction target where z: "z = (prediction, target)" by (cases z)
  show ?case
    using Cons.IH [of "dict_add correct target (if prediction = target then 1 else 0)"
                      "dict_add totals target 1"] Cons.prems
    by (auto simp: z dict_get0_add)
qed

lemma length_filter_disjoint:
  "(\<And>x. x \<in> set xs \<Longrightarrow> \<not> (A x \<and> B x)) \<Longrightarrow>
   length (filter (\<lambda>x. A x \<or> B x) xs) = length (filter A xs) + length (filter B xs)"
  by (induction xs) auto

lemma sum_counts_by_key:
  assumes "distinct ks"
  shows "(\<Sum>k\<leftarrow>ks. length (filter (\<lambda>z. key z = k \<and> P z) zs))
         = length (filter (\<lambda>z. key z \<in> set ks \<and> P z) zs)"
  using assms
proof (induction ks)
  case Nil
  then show ?case by simp
next
  case (Cons k ks)
  have "length (filter (\<lambda>z. (key z = k \<and> P z) \<or> (key z \<in> set ks \<and> P z)) zs)
        = length (filter (\<lambda>z. key z = k \<and> P z) zs)
          + length (filter (\<lambda>z. key z \<in> set ks \<and> P z) zs)"
    using Cons.prems by (intro length_filter_disjoint) auto
  moreover have "(\<lambda>z. key z \<in> set (k # ks) \<and> P z)
                 = (\<lambda>z. (key z = k \<and> P z) \<or> (key z \<in> set ks \<and> P z))"
    by auto
  ultimately show ?case using Cons by simp
qed

lemma sum_dict_values:
  "distinct (map fst d) \<Longrightarrow> (\<Sum>(k, c)\<leftarrow>d. f k c) = (\<Sum>k\<leftarrow>map fst d. f k (dict_get0 d k))"
proof (induction d)
  case Nil
  then show ?case by simp
next
  case (Cons kv d)
  obtain k c where kv: "kv = (k, c)" by (cases kv)
  have notin: "k \<notin> fst ` set d" using Cons.prems by (simp add: kv)
  have "\<And>k'. k' \<in> fst ` set d \<Longrightarrow> dict_get0 (kv # d) k' = dict_get0 d k'"
    using notin by (auto simp: dict_get0_def kv)
  then have "(\<Sum>k'\<leftarrow>map fst d. f k' (dict_get0 (kv # d) k')) = (\<Sum>k'\<leftarrow>map fst d. f k' (dict_get0 d k'))"
    by (intro arg_cong [where f = sum_list] map_cong) auto
  moreover have "dict_get0 (kv # d) k = c" by (simp add: dict_get0_def kv)
  ultimately show ?case using Cons by (simp add: kv)
qed

lemma of_nat_sum_list_rat: "(of_nat (\<Sum>x\<leftarrow>xs. f x) :: rat) = (\<Sum>x\<leftarrow>xs. of_nat (f x))"
  by (induction xs) simp_all

lemma count_list_filter: "count_list xs k = length (filter (\<lambda>x. x = k) xs)"
  by (induction xs) auto

lemma class_accuracies_value:
  assumes "\<forall>kc \<in> set correct.
             snd kc \<le> dict_get0 totals (fst kc) \<and> 0 < dict_get0 totals (fst kc)"
  shows "class_accuracies correct totals
         = Inr (map (\<lambda>kc. (fst kc, round_to_double
                                     (of_nat (snd kc) / of_nat (dict_get0 totals (fst kc)))))
                  correct)"
  using assms
proof (induction correct)
  case Nil
  then show ?case by simp
next
  case (Cons kc correct)
  obtain k c where kc: "kc = (k, c)" by (cases kc)
  have "c \<le> dict_get0 totals k" "0 < dict_get0 totals k"
    using Cons.prems by (simp_all add: kc)
  then have "int_truediv (int c) (int (dict_get0 totals k))
             = Inr (round_to_double (of_nat c / of_nat (dict_get0 totals k)))"
    by (rule int_truediv_unit(1))
  moreover have "class_accuracies correct totals
         = Inr (map (\<lambda>kc. (fst kc, round_to_double
                                     (of_nat (snd kc) / of_nat (dict_get0 totals (fst kc)))))
                  correct)"
    using Cons.IH Cons.prems by simp
  ultimately show ?case by (simp add: kc)
qed

text \<open>
  C9. For a non-empty dataset and precomputed predictions of the same length, \<open>accuracy\<close>
  is within \<open>1 / 2 ^ 53\<close> of the sum over the classes \<open>c\<close> of \<open>accuracies[c]\<close> times the
  number of samples with target \<open>c\<close>, divided by the size of the dataset, and the keys of
  \<open>accuracies\<close> are the target labels that occur in the dataset, each once. The two
  functions return rounded quotients: \<open>accuracy\<close> the double nearest to the number of right
  predictions divided by the size of the dataset, \<open>accuracies[c]\<close> the double nearest to
  the number of right predictions among the samples with target \<open>c\<close> divided by the number
  of these samples.
\<close>

theorem accuracy_is_weighted_mean_of_accuracies:
  assumes "dataset \<noteq> []" and "length predictions = length dataset"
  shows "\<exists>a accs. accuracy self_predict dataset (Some predictions) = Inr a
           \<and> accuracies self_predict dataset (Some predictions) = Inr accs
           \<and> \<bar>a - (\<Sum>(c, acc)\<leftarrow>accs. acc * of_nat (count_list (map snd dataset) c))
                     / of_nat (length dataset)\<bar> \<le> 1 / 2 ^ 53
           \<and> distinct (map fst accs)
           \<and> set (map fst accs) = set (map snd dataset)
           \<and> round_double
                 (of_nat (length (filter (\<lambda>(p, t). p = t) (zip predictions (map snd dataset))))
                  / of_nat (length dataset)) = Some a
           \<and> (\<forall>(c, acc) \<in> set accs.
                 round_double
                   (of_nat (length (filter (\<lambda>(p, t). t = c \<and> p = t)
                                      (zip predictions (map snd dataset))))
                    / of_nat (count_list (map snd dataset) c)) = Some acc)"
proof -
  let ?targets = "map snd dataset"
  let ?zs = "zip predictions ?targets"
  let ?n = "of_nat (length dataset) :: rat"
  have len: "length predictions = length ?targets" using assms(2) by simp
  have n0: "0 < ?n" using assms(1) by simp
  obtain correct totals where loop: "accuracies_loop ?zs ([], []) = (correct, totals)"
    by (cases "accuracies_loop ?zs ([], [])")
  have snd_zs: "map snd ?zs = ?targets" using len by simp
  then have snd_set: "snd ` set ?zs = set ?targets"
    by (metis set_map)
  have keys_c: "fst ` set correct = set ?targets"
    and keys_t: "fst ` set totals = set ?targets"
    using accuracies_loop_keys [OF loop] snd_set by simp_all
  have dist: "distinct (map fst correct)"
    using accuracies_loop_distinct [OF loop] by simp
  have cnt_c: "dict_get0 correct k = length (filter (\<lambda>(p, t). t = k \<and> p = t) ?zs)"
    and cnt_t': "dict_get0 totals k = length (filter (\<lambda>(p, t). t = k) ?zs)" for k
    using accuracies_loop_counts [OF loop, of k] by (simp_all add: dict_get0_def)
  have cnt_t: "dict_get0 totals k = count_list ?targets k" for k
  proof -
    have "length (filter (\<lambda>(p, t). t = k) ?zs) = length (filter (\<lambda>t. t = k) (map snd ?zs))"
      by (simp add: filter_map comp_def case_prod_unfold)
    then show ?thesis
      unfolding cnt_t' snd_zs by (simp add: count_list_filter)
  qed
  have pos: "0 < dict_get0 totals (fst kc)" if "kc \<in> set correct" for kc
  proof -
    have "fst kc \<in> set ?targets" using that keys_c by force
    then have "count_list ?targets (fst kc) \<noteq> 0"
      by (simp only: count_list_0_iff not_not)
    then show ?thesis unfolding cnt_t by simp
  qed
  have cval: "snd kc = length (filter (\<lambda>(p, t). t = fst kc \<and> p = t) ?zs)"
    if "kc \<in> set correct" for kc
  proof -
    have "map_of correct (fst kc) = Some (snd kc)"
      using that dist by (simp add: map_of_eq_Some_iff)
    then have "snd kc = dict_get0 correct (fst kc)" by (simp add: dict_get0_def)
    then show ?thesis by (simp only: cnt_c)
  qed
  have le: "snd kc \<le> dict_get0 totals (fst kc)" if "kc \<in> set correct" for kc
  proof -
    have "snd kc = length (filter (\<lambda>(p, t). t = fst kc \<and> p = t) ?zs)"
      using that by (rule cval)
    also have "\<dots> = length (filter (\<lambda>(p, t). p = t) (filter (\<lambda>(p, t). t = fst kc) ?zs))"
      by (simp add: case_prod_unfold conj_commute)
    also have "\<dots> \<le> length (filter (\<lambda>(p, t). t = fst kc) ?zs)" by (rule length_filter_le)
    finally show ?thesis by (simp only: cnt_t')
  qed
  define q where "q = (\<lambda>kc::int \<times> nat.
    (of_nat (snd kc) :: rat) / of_nat (dict_get0 totals (fst kc)))"
  define w where "w = (\<lambda>kc::int \<times> nat. (of_nat (dict_get0 totals (fst kc)) :: rat))"
  let ?accs = "map (\<lambda>kc. (fst kc, round_to_double (q kc))) correct"
  have "class_accuracies correct totals = Inr ?accs"
    unfolding q_def using le pos by (intro class_accuracies_value) simp
  then have accs: "accuracies self_predict dataset (Some predictions) = Inr ?accs"
    using keys_c keys_t by (simp add: accuracies_def loop)
  have fst_accs: "map fst ?accs = map fst correct"
    by (simp add: comp_def)
  have S: "(\<Sum>(c, acc)\<leftarrow>?accs. acc * of_nat (count_list ?targets c))
           = (\<Sum>kc\<leftarrow>correct. round_to_double (q kc) * w kc)"
    by (simp add: comp_def case_prod_unfold cnt_t w_def)
  have err: "\<forall>kc \<in> set correct. \<bar>round_to_double (q kc) - q kc\<bar> \<le> 1 / 2 ^ 54 \<and> 0 \<le> w kc"
  proof
    fix kc assume kc: "kc \<in> set correct"
    show "\<bar>round_to_double (q kc) - q kc\<bar> \<le> 1 / 2 ^ 54 \<and> 0 \<le> w kc"
      using int_truediv_unit(4) [OF le [OF kc] pos [OF kc]] by (simp add: q_def w_def)
  qed
  have E: "(\<Sum>kc\<leftarrow>correct. q kc * w kc)
           = of_nat (length (filter (\<lambda>(x, y). x = y) ?zs))"
  proof -
    have "(\<Sum>kc\<leftarrow>correct. q kc * w kc) = (\<Sum>kc\<leftarrow>correct. (of_nat (snd kc) :: rat))"
    proof (rule arg_cong [where f = sum_list], rule map_cong)
      fix kc assume "kc \<in> set correct"
      then have "dict_get0 totals (fst kc) \<noteq> 0" using pos [of kc] by simp
      then show "q kc * w kc = of_nat (snd kc)" by (simp add: q_def w_def)
    qed simp
    also have "\<dots> = (\<Sum>(k, c)\<leftarrow>correct. (of_nat c :: rat))"
      by (simp add: case_prod_unfold)
    also have "\<dots> = (\<Sum>k\<leftarrow>map fst correct. (of_nat (dict_get0 correct k) :: rat))"
      using sum_dict_values [OF dist, of "\<lambda>k c. (of_nat c :: rat)"] by simp
    also have "\<dots> = of_nat (\<Sum>k\<leftarrow>map fst correct.
                         length (filter (\<lambda>z. snd z = k \<and> fst z = snd z) ?zs))"
      by (simp add: cnt_c case_prod_unfold comp_def of_nat_sum_list_rat)
    also have "(\<Sum>k\<leftarrow>map fst correct. length (filter (\<lambda>z. snd z = k \<and> fst z = snd z) ?zs))
               = length (filter (\<lambda>z. snd z \<in> set (map fst correct) \<and> fst z = snd z) ?zs)"
      using dist by (rule sum_counts_by_key)
    also have "filter (\<lambda>z. snd z \<in> set (map fst correct) \<and> fst z = snd z) ?zs
               = filter (\<lambda>(x, y). x = y) ?zs"
    proof (rule filter_cong)
      fix z assume "z \<in> set ?zs"
      then have "snd z \<in> set (map fst correct)"
        using keys_c snd_set by (metis image_eqI set_map)
      then show "(snd z \<in> set (map fst correct) \<and> fst z = snd z) = (case z of (x, y) \<Rightarrow> x = y)"
        by (simp add: case_prod_unfold)
    qed simp
    finally show ?thesis .
  qed
  have W: "(\<Sum>kc\<leftarrow>correct. w kc) = ?n"
  proof -
    have "(\<Sum>kc\<leftarrow>correct. w kc)
          = of_nat (\<Sum>k\<leftarrow>map fst correct. length (filter (\<lambda>z. snd z = k \<and> True) ?zs))"
      by (simp add: w_def cnt_t' case_prod_unfold comp_def of_nat_sum_list_rat)
    also have "(\<Sum>k\<leftarrow>map fst correct. length (filter (\<lambda>z. snd z = k \<and> True) ?zs))
               = length (filter (\<lambda>z. snd z \<in> set (map fst correct) \<and> True) ?zs)"
      using dist by (rule sum_counts_by_key)
    also have "filter (\<lambda>z. snd z \<in> set (map fst correct) \<and> True) ?zs = ?zs"
    proof -
      have "\<forall>z \<in> set ?zs. snd z \<in> set (map fst correct) \<and> True"
        using keys_c snd_set by (metis image_eqI set_map)
      then show ?thesis by (simp only: filter_True)
    qed
    also have "length ?zs = length dataset" using len by simp
    finally show ?thesis .
  qed
  let ?C = "length (filter (\<lambda>(x, y). x = y) ?zs)"
  have "\<bar>(\<Sum>kc\<leftarrow>correct. round_to_double (q kc) * w kc) - (\<Sum>kc\<leftarrow>correct. q kc * w kc)\<bar>
        \<le> 1 / 2 ^ 54 * (\<Sum>kc\<leftarrow>correct. w kc)"
    using err by (rule weighted_sum_error)
  then have D: "\<bar>(\<Sum>(c, acc)\<leftarrow>?accs. acc * of_nat (count_list ?targets c)) - of_nat ?C\<bar>
                \<le> 1 / 2 ^ 54 * ?n"
    by (simp only: S E W)
  have "length (filter (\<lambda>b. b) (map (\<lambda>(x, y). x = y) ?zs)) = ?C"
    by (simp add: filter_map comp_def case_prod_unfold)
  then have acc: "accuracy self_predict dataset (Some predictions)
             = int_truediv (int ?C) (int (length dataset))"
    by (simp add: accuracy_def Let_def tensor_eq_same_length [OF len])
  have "?C \<le> length ?zs" by (rule length_filter_le)
  then have Cn: "?C \<le> length dataset" using len by simp
  have ln: "0 < length dataset" using assms(1) by simp
  let ?a = "round_to_double (of_nat ?C / ?n)"
  have acc': "accuracy self_predict dataset (Some predictions) = Inr ?a"
    using int_truediv_unit(1) [OF Cn ln] by (simp only: acc)
  have a_err: "\<bar>?a - of_nat ?C / ?n\<bar> \<le> 1 / 2 ^ 54"
    by (rule int_truediv_unit(4) [OF Cn ln])
  let ?S = "\<Sum>(c, acc)\<leftarrow>?accs. acc * of_nat (count_list ?targets c)"
  have "\<bar>?S / ?n - of_nat ?C / ?n\<bar> = \<bar>?S - of_nat ?C\<bar> / ?n"
    using n0 by (simp add: diff_divide_distrib [symmetric])
  also have "\<dots> \<le> (1 / 2 ^ 54 * ?n) / ?n"
    using D n0 by (intro divide_right_mono) simp_all
  also have "\<dots> = 1 / 2 ^ 54" using n0 by simp
  finally have w_err: "\<bar>?S / ?n - of_nat ?C / ?n\<bar> \<le> 1 / 2 ^ 54" .
  have "\<bar>?a - ?S / ?n\<bar> \<le> 2 * (1 / 2 ^ 54)"
    using a_err w_err by (rule abs_diff_two)
  then have bound: "\<bar>?a - ?S / ?n\<bar> \<le> 1 / 2 ^ 53" by simp
  have a_val: "round_double (of_nat ?C / ?n) = Some ?a"
    by (rule int_truediv_unit(5) [OF Cn ln])
  have accs_val: "\<forall>(c, acc) \<in> set ?accs.
      round_double (of_nat (length (filter (\<lambda>(p, t). t = c \<and> p = t) ?zs))
                    / of_nat (count_list ?targets c)) = Some acc"
  proof -
    have "round_double (of_nat (length (filter (\<lambda>(p, t). t = fst kc \<and> p = t) ?zs))
                        / of_nat (count_list ?targets (fst kc)))
          = Some (round_to_double (q kc))" if kc: "kc \<in> set correct" for kc
      using int_truediv_unit(5) [OF le [OF kc] pos [OF kc]]
      unfolding q_def cval [OF kc, symmetric] cnt_t .
    then show ?thesis by auto
  qed
  have d_accs: "distinct (map fst ?accs)" by (simp only: fst_accs dist)
  have k_accs: "set (map fst ?accs) = set ?targets"
    by (simp only: fst_accs set_map keys_c)
  show ?thesis
  proof (intro exI conjI)
    show "accuracy self_predict dataset (Some predictions) = Inr ?a" by (rule acc')
    show "accuracies self_predict dataset (Some predictions) = Inr ?accs" by (rule accs)
    show "\<bar>?a - ?S / ?n\<bar> \<le> 1 / 2 ^ 53" by (rule bound)
    show "distinct (map fst ?accs)" by (rule d_accs)
    show "set (map fst ?accs) = set ?targets" by (rule k_accs)
    show "round_double (of_nat ?C / ?n) = Some ?a" by (rule a_val)
    show "\<forall>(c, acc) \<in> set ?accs.
            round_double (of_nat (length (filter (\<lambda>(p, t). t = c \<and> p = t) ?zs))
                          / of_nat (count_list ?targets c)) = Some acc"
      by (rule accs_val)
  qed
qed

theorem accuracy_is_weighted_mean_of_accuracies_witness:
  "[(''a'', 0), (''b'', 1), (''c'', 0 :: int)] \<noteq> []
   \<and> length [0, 0, 1 :: int] = length [(''a'', 0), (''b'', 1), (''c'', 0 :: int)]
   \<and> accuracy (\<lambda>d. Inl RuntimeError) [(''a'', 0), (''b'', 1), (''c'', 0)] (Some [0, 0, 1])
       = Inr (6004799503160661 / 2 ^ 54)
   \<and> accuracies (\<lambda>d. Inl RuntimeError) [(''a'', 0), (''b'', 1), (''c'', 0)] (Some [0, 0, 1])
       = Inr [(0, 1 / 2), (1, 0)]
   \<and> \<bar>6004799503160661 / 2 ^ 54 - (1 / 2 * 2 + 0 * 1) / 3\<bar> \<le> (1 / 2 ^ 53 :: rat)"
  using accuracy_is_weighted_mean_of_accuracies
    [of "[(''a'', 0), (''b'', 1), (''c'', 0 :: int)]" "[0, 0, 1]" "\<lambda>d. Inl RuntimeError"]
  by (simp add: accuracies_def dict_add_def dict_get0_def accuracy_def tensor_eq_def
      int_truediv_def double_1_3 double_1_2 round_double_0)

text \<open>
  C9 as stated, with equality, fails. For 24 samples, one of class 0 that is predicted
  right and 23 of class 1 of which 13 are predicted right, \<open>accuracy\<close> is the double of
  \<open>14 / 24\<close> and \<open>accuracies\<close> holds \<open>1.0\<close> and the double of \<open>13 / 23\<close>; the weighted
  average of these two values differs from \<open>accuracy\<close> both in exact arithmetic and when
  it is computed in floats, \<open>(1.0 * 1 + accuracies[1] * 23) / 24\<close>, which gives the next
  double below. On an empty dataset \<open>accuracy\<close> raises where \<open>accuracies\<close> returns the
  empty dictionary, and with fewer predictions than samples the keys of \<open>accuracies\<close> are
  the targets of the first samples only.
\<close>

theorem accuracy_is_weighted_mean_of_accuracies_counterexample:
  "(let dataset = map (Pair ()) (0 # replicate 23 1);
        predictions = Some (0 # replicate 13 1 @ replicate 10 0)
    in accuracy (\<lambda>d. Inl RuntimeError) dataset predictions
         = Inr (5254199565265579 / 2 ^ 53)
       \<and> accuracies (\<lambda>d. Inl RuntimeError) dataset predictions
         = Inr [(0, 1), (1, 5091025665723169 / 2 ^ 53)])
   \<and> (1 * 1 + 5091025665723169 / 2 ^ 53 * 23) / 24 \<noteq> (5254199565265579 / 2 ^ 53 :: rat)
   \<and> float_mul 1 1 = Some 1
   \<and> float_mul (5091025665723169 / 2 ^ 53) 23 = Some (7318349394477055 / 2 ^ 49)
   \<and> float_add 1 (7318349394477055 / 2 ^ 49) = Some (7881299347898367 / 2 ^ 49)
   \<and> float_div (7881299347898367 / 2 ^ 49) 24 = Inr (Some (5254199565265578 / 2 ^ 53))
   \<and> 5254199565265578 / 2 ^ 53 \<noteq> (5254199565265579 / 2 ^ 53 :: rat)
   \<and> accuracy (\<lambda>d. Inl RuntimeError) ([] :: (unit \<times> int) list) (Some []) = Inl ZeroDivisionError
   \<and> accuracies (\<lambda>d. Inl RuntimeError) ([] :: (unit \<times> int) list) (Some []) = Inr []
   \<and> accuracies (\<lambda>d. Inl RuntimeError) [((), 0), ((), 1)] (Some [0]) = Inr [(0, 1)]"
proof -
  have rep: "replicate (numeral k) x = x # replicate (pred_numeral k) x" for k and x :: int
    by (simp add: numeral_eq_Suc)
  have 1: "accuracy (\<lambda>d. Inl RuntimeError) (map (Pair ()) (0 # replicate 23 1))
             (Some (0 # replicate 13 1 @ replicate 10 0))
           = Inr (5254199565265579 / 2 ^ 53)"
    by (simp add: rep accuracy_def tensor_eq_def int_truediv_def double_7_12)
  have 2: "accuracies (\<lambda>d. Inl RuntimeError) (map (Pair ()) (0 # replicate 23 1))
             (Some (0 # replicate 13 1 @ replicate 10 0))
           = Inr [(0, 1), (1, 5091025665723169 / 2 ^ 53)]"
    by (simp add: rep accuracies_def dict_add_def dict_get0_def int_truediv_def round_double_1
        double_13_23)
  have 3: "(1 * 1 + 5091025665723169 / 2 ^ 53 * 23) / 24 \<noteq> (5254199565265579 / 2 ^ 53 :: rat)"
    by simp
  have 4: "float_mul 1 1 = Some 1" by (simp add: float_mul_def round_double_1)
  have 5: "float_mul (5091025665723169 / 2 ^ 53) 23 = Some (7318349394477055 / 2 ^ 49)"
    by (simp only: float_mul_def double_13_23_times_23)
  have 6: "float_add 1 (7318349394477055 / 2 ^ 49) = Some (7881299347898367 / 2 ^ 49)"
    by (simp only: float_add_def double_sum_14)
  have "(24::rat) \<noteq> 0" by simp
  then have 7: "float_div (7881299347898367 / 2 ^ 49) 24
                = Inr (Some (5254199565265578 / 2 ^ 53))"
    by (simp only: float_div_def if_False double_sum_14_by_24)
  have 8: "5254199565265578 / 2 ^ 53 \<noteq> (5254199565265579 / 2 ^ 53 :: rat)" by simp
  have 9: "accuracy (\<lambda>d. Inl RuntimeError) ([] :: (unit \<times> int) list) (Some [])
           = Inl ZeroDivisionError"
    by (simp add: accuracy_def tensor_eq_def int_truediv_def)
  have 10: "accuracies (\<lambda>d. Inl RuntimeError) ([] :: (unit \<times> int) list) (Some []) = Inr []"
    by (simp add: accuracies_def)
  have 11: "accuracies (\<lambda>d. Inl RuntimeError) [((), 0), ((), 1)] (Some [0]) = Inr [(0, 1)]"
    by (simp add: accuracies_def dict_add_def dict_get0_def int_truediv_def round_double_1)
  show ?thesis
    unfolding Let_def using 1 2 3 4 5 6 7 8 9 10 11 by (intro conjI)
qed

section \<open>\<open>ImageClassifier.predict\<close>\<close>

lemma batches_Nil: "batches n [] = []"
  by (simp add: batches.simps)

lemma concat_batches: "0 < n \<Longrightarrow> concat (batches n xs) = xs"
proof (induction n xs rule: batches.induct)
  case (1 n xs)
  show ?case
  proof (cases "xs = []")
    case True
    then show ?thesis by (simp add: batches_Nil)
  next
    case False
    have "batches n xs = take n xs # batches n (drop n xs)"
      using False "1.prems" by (subst batches.simps) simp
    moreover have "concat (batches n (drop n xs)) = drop n xs"
      using "1.IH" False "1.prems" by simp
    ultimately show ?thesis by simp
  qed
qed

lemma batches_not_Nil: "0 < n \<Longrightarrow> xs \<noteq> [] \<Longrightarrow> batches n xs \<noteq> []"
  by (subst batches.simps) simp

lemma batches_size:
  "0 < n \<Longrightarrow> b \<in> set (batches n xs) \<Longrightarrow> b \<noteq> [] \<and> length b \<le> n"
proof (induction n xs rule: batches.induct)
  case (1 n xs)
  show ?case
  proof (cases "xs = []")
    case True
    then show ?thesis using "1.prems" by (simp add: batches_Nil)
  next
    case False
    have "batches n xs = take n xs # batches n (drop n xs)"
      using False "1.prems" by (subst batches.simps) simp
    then have "b = take n xs \<or> b \<in> set (batches n (drop n xs))"
      using "1.prems" by simp
    then show ?thesis
      using "1.IH" False "1.prems" by auto
  qed
qed

lemma predict_loop_ok:
  assumes "\<forall>batch \<in> set loader. \<forall>row \<in> set (net (map fst batch)). row \<noteq> []"
  shows "predict_loop net loader
         = Inr (map (\<lambda>batch. map (\<lambda>row. int (argmax row)) (net (map fst batch))) loader)"
  using assms
proof (induction loader)
  case Nil
  then show ?case by simp
next
  case (Cons batch rest)
  have "\<not> list_ex (\<lambda>row. row = []) (net (map fst batch))"
    using Cons.prems by (simp add: list_ex_iff)
  then have "argmax_rows (net (map fst batch))
             = Inr (map (\<lambda>row. int (argmax row)) (net (map fst batch)))"
    by (simp add: argmax_rows_def)
  moreover have "predict_loop net rest
         = Inr (map (\<lambda>batch. map (\<lambda>row. int (argmax row)) (net (map fst batch))) rest)"
    using Cons by simp
  ultimately show ?case by simp
qed

lemma length_zero_units: "length (zero_units name units acts) = length acts"
  by (simp add: zero_units_def)

lemma nth_zero_units:
  "u < length acts \<Longrightarrow>
   zero_units name units acts ! u = (if (name, u) \<in> set units then 0 else acts ! u)"
  by (simp add: zero_units_def)

lemma length_ablated_activations: "length (ablated_activations model units x) = length model"
  by (induction model units x rule: ablated_activations.induct) simp_all

lemma ablated_activations_nth:
  "i < length model \<Longrightarrow>
   ablated_activations model units x ! i
   = zero_units (fst (model ! i)) units
       (snd (model ! i) ((x # ablated_activations model units x) ! i))"
proof (induction model units x arbitrary: i rule: ablated_activations.induct)
  case (1 units x)
  then show ?case by simp
next
  case (2 name f rest units x)
  then show ?case by (cases i) simp_all
qed

lemma argmax_first_max:
  assumes "row \<noteq> []"
  shows "argmax row < length row \<and> row ! argmax row = Max (set row)
         \<and> (\<forall>j < argmax row. row ! j \<noteq> Max (set row))"
proof -
  let ?P = "\<lambda>x. x \<noteq> Max (set row)"
  have "Max (set row) \<in> set row" using assms by (intro Max_in) simp_all
  then have "\<exists>x \<in> set row. \<not> ?P x" by blast
  then have ne: "takeWhile ?P row \<noteq> row"
    by (simp add: takeWhile_eq_all_conv)
  have "takeWhile ?P row = take (length (takeWhile ?P row)) row"
    by (rule takeWhile_eq_take)
  then have lt: "length (takeWhile ?P row) < length row"
    using ne by (cases "length (takeWhile ?P row) < length row") simp_all
  then have "\<not> ?P (row ! length (takeWhile ?P row))"
    by (rule nth_length_takeWhile)
  moreover have "\<forall>j < length (takeWhile ?P row). ?P (row ! j)"
  proof (intro allI impI)
    fix j assume j: "j < length (takeWhile ?P row)"
    then have "takeWhile ?P row ! j \<in> set (takeWhile ?P row)" by (rule nth_mem)
    then have "?P (takeWhile ?P row ! j)" by (rule set_takeWhileD [THEN conjunct2])
    then show "?P (row ! j)" using takeWhile_nth [OF j] by simp
  qed
  ultimately show ?thesis using lt unfolding argmax_def by blast
qed

lemma predict_ablated_model:
  assumes "dataset \<noteq> []" and "0 < batch_size"
    and "\<forall>(image, target) \<in> set dataset.
           ablated_forward model (case ablate of None \<Rightarrow> [] | Some units \<Rightarrow> units) image \<noteq> []"
  shows "predict (ablated_model model) dataset batch_size ablate
         = Inr (map (\<lambda>(image, target).
                  int (argmax (ablated_forward model
                         (case ablate of None \<Rightarrow> [] | Some units \<Rightarrow> units) image))) dataset)"
proof -
  let ?units = "case ablate of None \<Rightarrow> [] | Some units \<Rightarrow> units"
  let ?loader = "batches (nat batch_size) dataset"
  let ?net = "ablated_model model ?units"
  let ?g = "\<lambda>image. int (argmax (ablated_forward model ?units image))"
  have n: "0 < nat batch_size" using assms(2) by simp
  have dl: "DataLoader dataset batch_size = Inr ?loader"
    using assms(2) by (simp add: DataLoader_def)
  have cc: "concat ?loader = dataset"
    using n by (rule concat_batches)
  have rows: "\<forall>batch \<in> set ?loader. \<forall>row \<in> set (?net (map fst batch)). row \<noteq> []"
  proof (intro ballI)
    fix batch row
    assume b: "batch \<in> set ?loader" and r: "row \<in> set (?net (map fst batch))"
    from r obtain s where s: "s \<in> set batch" and row: "row = ablated_forward model ?units (fst s)"
      by (auto simp: ablated_model_def)
    have "s \<in> set (concat ?loader)" using b s by auto
    then have "s \<in> set dataset" by (simp only: cc)
    then show "row \<noteq> []" using assms(3) row by (cases s) auto
  qed
  have loop: "predict_loop ?net ?loader
              = Inr (map (\<lambda>batch. map (\<lambda>row. int (argmax row)) (?net (map fst batch))) ?loader)"
    using rows by (rule predict_loop_ok)
  have each: "(\<lambda>batch. map (\<lambda>row. int (argmax row)) (?net (map fst batch)))
              = map (\<lambda>s. ?g (fst s))"
    by (rule ext) (simp add: ablated_model_def comp_def)
  have ne: "?loader \<noteq> []"
    using n assms(1) by (rule batches_not_Nil)
  have "predict (ablated_model model) dataset batch_size ablate
        = Inr (concat (map (map (\<lambda>s. ?g (fst s))) ?loader))"
    using ne by (simp add: predict_def dl loop each torch_cat_def)
  also have "concat (map (map (\<lambda>s. ?g (fst s))) ?loader) = map (\<lambda>s. ?g (fst s)) (concat ?loader)"
    by (simp add: map_concat)
  finally show ?thesis by (simp only: cc case_prod_unfold)
qed

text \<open>
  C4, amended. For a non-empty dataset, a positive batch size and a model with at least
  one output class, \<open>predict\<close> returns one class per dataset element, in dataset order,
  each the argmax of the ablated model's output for that image; in every forward pass of
  the ablated model the activations of exactly the units passed via \<open>ablate\<close> (none when
  \<open>ablate\<close> is \<open>None\<close>) are set to zero, and all other activations are as the layer
  computed them.
\<close>

theorem predict_one_class_per_image:
  assumes "dataset \<noteq> []" and "0 < batch_size"
    and "units = (case ablate of None \<Rightarrow> [] | Some us \<Rightarrow> us)"
    and "\<forall>(image, target) \<in> set dataset. ablated_forward model units image \<noteq> []"
  shows "\<exists>predictions.
           predict (ablated_model model) dataset batch_size ablate = Inr predictions
         \<and> length predictions = length dataset
         \<and> (\<forall>i < length dataset.
               predictions ! i = int (argmax (ablated_forward model units (fst (dataset ! i)))))
         \<and> (\<forall>x. ablated_forward model units x = last (x # ablated_activations model units x))
         \<and> (\<forall>x. \<forall>l < length model.
               \<forall>u < length (snd (model ! l) ((x # ablated_activations model units x) ! l)).
                 ablated_activations model units x ! l ! u
                 = (if (fst (model ! l), u) \<in> set units then 0
                    else snd (model ! l) ((x # ablated_activations model units x) ! l) ! u))"
proof -
  let ?p = "map (\<lambda>(image, target). int (argmax (ablated_forward model units image))) dataset"
  have p: "predict (ablated_model model) dataset batch_size ablate = Inr ?p"
    using predict_ablated_model [OF assms(1,2), of model ablate] assms(3,4) by simp
  have nth: "\<forall>i < length dataset.
               ?p ! i = int (argmax (ablated_forward model units (fst (dataset ! i))))"
    by (simp add: case_prod_unfold)
  have zero: "\<forall>x. \<forall>l < length model.
               \<forall>u < length (snd (model ! l) ((x # ablated_activations model units x) ! l)).
                 ablated_activations model units x ! l ! u
                 = (if (fst (model ! l), u) \<in> set units then 0
                    else snd (model ! l) ((x # ablated_activations model units x) ! l) ! u)"
    by (simp add: ablated_activations_nth nth_zero_units)
  show ?thesis
    using p nth zero by (intro exI [of _ ?p] conjI) (simp_all add: ablated_forward_def)
qed

theorem predict_one_class_per_image_witness:
  "[([2], 0), ([0], 1 :: int)] \<noteq> [] \<and> (0::int) < 1
   \<and> [(''fc'', 0 :: nat)] = (case Some [(''fc'', 0)] of None \<Rightarrow> [] | Some us \<Rightarrow> us)
   \<and> list_all (\<lambda>(image, target).
         ablated_forward [(''fc'', \<lambda>x. [sum_list x, 1])] [(''fc'', 0)] image \<noteq> [])
       [([2], 0), ([0], 1 :: int)]
   \<and> predict (ablated_model [(''fc'', \<lambda>x. [sum_list x, 1])]) [([2], 0), ([0], 1)] 1
         (Some [(''fc'', 0)]) = Inr [1, 1]
   \<and> predict (ablated_model [(''fc'', \<lambda>x. [sum_list x, 1])]) [([2], 0), ([0], 1)] 1 None
       = Inr [0, 1]"
proof -
  have b: "batches (Suc 0) [([2], 0), ([0], 1 :: int)] = [[([2 :: rat], 0)], [([0], 1)]]"
    by (simp add: batches.simps)
  show ?thesis
    using predict_one_class_per_image
      [of "[([2], 0), ([0], 1)]" 1 "[(''fc'', 0)]" "Some [(''fc'', 0)]"
          "[(''fc'', \<lambda>x. [sum_list x, 1])]"]
    by (simp add: predict_def DataLoader_def b torch_cat_def argmax_rows_def argmax_def
        ablated_model_def ablated_forward_def zero_units_def upt_rec)
qed

text \<open>
  C4 as stated fails on the empty dataset: the loader yields no batch, and \<open>torch.cat\<close>
  refuses the empty list of predictions.
\<close>

theorem predict_empty_dataset_counterexample:
  "predict (ablated_model []) ([] :: (rat list \<times> int) list) 128 None = Inl RuntimeError
   \<and> \<not> (\<exists>predictions. predict (ablated_model []) ([] :: (rat list \<times> int) list) 128 None
            = Inr predictions \<and> length predictions = length ([] :: (rat list \<times> int) list))"
  by (simp add: predict_def DataLoader_def batches_Nil torch_cat_def)

section \<open>\<open>Featurizer.map\<close>\<close>

lemma the_tensors_map_Tensor: "the_tensors (map Tensor ts) = Some ts"
  by (induction ts) simp_all

lemma default_collate_tensors:
  "ts \<noteq> [] \<Longrightarrow> default_collate (map Tensor ts) = Inr (Stacked ts)"
  using the_tensors_map_Tensor [of ts]
  by (cases ts) (simp_all add: default_collate_def del: the_tensors.simps)

lemma map_loop_ValueError:
  assumes "\<forall>imgs ms. \<exists>fs. fwd imgs ms = Inr fs"
    and "\<forall>batch \<in> set loader. collates batch"
  shows "(map_loop fwd loader = Inl ValueError \<longleftrightarrow> (\<exists>batch \<in> set loader. non_tensor_batch batch))
         \<and> (\<forall>e. map_loop fwd loader = Inl e \<longrightarrow> e = ValueError)"
  using assms(2)
proof (induction loader)
  case Nil
  then show ?case by simp
next
  case (Cons batch rest)
  obtain ci cm where ci: "default_collate (map fst batch) = Inr ci"
    and cm: "default_collate (map snd batch) = Inr cm"
    using Cons.prems by (auto simp: collates_def)
  have ih: "(map_loop fwd rest = Inl ValueError \<longleftrightarrow> (\<exists>batch \<in> set rest. non_tensor_batch batch))
         \<and> (\<forall>e. map_loop fwd rest = Inl e \<longrightarrow> e = ValueError)"
    using Cons by simp
  show ?case
  proof (cases "non_tensor_batch batch")
    case True
    then have "map_loop fwd (batch # rest) = Inl ValueError"
      using ci cm by (cases ci; cases cm) (auto simp: non_tensor_batch_def)
    then show ?thesis using True by simp
  next
    case False
    then obtain imgs ms where st: "ci = Stacked imgs" "cm = Stacked ms"
      using ci cm by (cases ci; cases cm) (auto simp: non_tensor_batch_def)
    obtain fs where fs: "fwd imgs ms = Inr fs"
      using assms(1) by blast
    have "map_loop fwd (batch # rest)
          = (case map_loop fwd rest of Inl e \<Rightarrow> Inl e | Inr mapped \<Rightarrow> Inr (fs # mapped))"
      by (simp add: ci cm st fs)
    then show ?thesis using ih False by (auto split: sum.splits)
  qed
qed

lemma map_loop_samples:
  assumes "\<forall>imgs ms. fwd imgs ms = Inr (f imgs ms)"
    and "\<forall>batch \<in> set loader. batch \<noteq> []"
  shows "map_loop fwd (map (map tensor_sample) loader)
         = Inr (map (\<lambda>batch. f (map fst batch) (map snd batch)) loader)"
  using assms(2)
proof (induction loader)
  case Nil
  then show ?case by simp
next
  case (Cons batch rest)
  have ne: "batch \<noteq> []" using Cons.prems by simp
  have i: "default_collate (map fst (map tensor_sample batch)) = Inr (Stacked (map fst batch))"
    using default_collate_tensors [of "map fst batch"] ne
    by (simp add: comp_def tensor_sample_def)
  have m: "default_collate (map snd (map tensor_sample batch)) = Inr (Stacked (map snd batch))"
    using default_collate_tensors [of "map snd batch"] ne
    by (simp add: comp_def tensor_sample_def)
  have fw: "fwd (map fst batch) (map snd batch) = Inr (f (map fst batch) (map snd batch))"
    using assms(1) by simp
  have ih: "map_loop fwd (map (map tensor_sample) rest)
        = Inr (map (\<lambda>batch. f (map fst batch) (map snd batch)) rest)"
    using Cons by simp
  show ?case
    using i m by (simp add: fw ih)
qed

lemma batches_map: "batches n (map g xs) = map (map g) (batches n xs)"
proof (induction n xs rule: batches.induct)
  case (1 n xs)
  show ?case
  proof (cases "n = 0 \<or> xs = []")
    case True
    then show ?thesis by (auto simp: batches.simps)
  next
    case False
    then have "batches n (map g xs) = take n (map g xs) # batches n (drop n (map g xs))"
      by (subst batches.simps) simp
    moreover have "batches n xs = take n xs # batches n (drop n xs)"
      using False by (subst batches.simps) simp
    ultimately show ?thesis
      using "1.IH" False by (simp add: take_map drop_map)
  qed
qed

text \<open>
  C10, amended. With a positive batch size and a \<open>forward\<close> that returns one feature
  row per input image: for every non-empty dataset whose samples hold a tensor at the image
  index and at the mask index, \<open>map\<close> returns as many rows as the dataset has samples,
  the rows of the batches in dataset order; and, when every batch is collated without an
  error, \<open>map\<close> raises \<open>ValueError\<close> exactly when some batch's image entry or mask entry
  is not a tensor.
\<close>

theorem Featurizer_map_rows:
  assumes "0 < batch_size"
    and "\<forall>imgs ms. fwd imgs ms = Inr (f imgs ms) \<and> length (f imgs ms) = length imgs"
  shows "(samples \<noteq> [] \<longrightarrow>
            (\<exists>rows. Featurizer_map fwd (map tensor_sample samples) batch_size = Inr rows
               \<and> length rows = length samples
               \<and> rows = concat (map (\<lambda>batch. f (map fst batch) (map snd batch))
                                  (batches (nat batch_size) samples))))
       \<and> ((\<forall>batch \<in> set (batches (nat batch_size) dataset). collates batch) \<longrightarrow>
            (Featurizer_map fwd dataset batch_size = Inl ValueError
             \<longleftrightarrow> (\<exists>batch \<in> set (batches (nat batch_size) dataset). non_tensor_batch batch)))"
proof (intro conjI impI)
  assume ne: "samples \<noteq> []"
  let ?n = "nat batch_size"
  let ?loader = "batches ?n samples"
  let ?mapped = "map (\<lambda>batch. f (map fst batch) (map snd batch)) ?loader"
  have n: "0 < ?n" using assms(1) by simp
  have dl: "DataLoader (map tensor_sample samples) batch_size
            = Inr (map (map tensor_sample) ?loader)"
    using assms(1) by (simp add: DataLoader_def batches_map)
  have nonempty: "\<forall>batch \<in> set ?loader. batch \<noteq> []"
    using batches_size [OF n] by blast
  have fw: "\<forall>imgs ms. fwd imgs ms = Inr (f imgs ms)" using assms(2) by simp
  have loop: "map_loop fwd (map (map tensor_sample) ?loader) = Inr ?mapped"
    using fw nonempty by (rule map_loop_samples)
  have "?loader \<noteq> []" using n ne by (rule batches_not_Nil)
  then have res: "Featurizer_map fwd (map tensor_sample samples) batch_size = Inr (concat ?mapped)"
    by (simp add: Featurizer_map_def dl loop torch_cat_def)
  have "length (concat ?mapped) = length (concat ?loader)"
    using assms(2) by (simp add: length_concat comp_def)
  then have len: "length (concat ?mapped) = length samples"
    by (simp only: concat_batches [OF n])
  show "\<exists>rows. Featurizer_map fwd (map tensor_sample samples) batch_size = Inr rows
               \<and> length rows = length samples
               \<and> rows = concat ?mapped"
    using res len by simp
next
  let ?loader = "batches (nat batch_size) dataset"
  assume col: "\<forall>batch \<in> set ?loader. collates batch"
  have dl: "DataLoader dataset batch_size = Inr ?loader"
    using assms(1) by (simp add: DataLoader_def)
  have fw: "\<forall>imgs ms. \<exists>fs. fwd imgs ms = Inr fs" using assms(2) by blast
  have ve: "map_loop fwd ?loader = Inl ValueError \<longleftrightarrow> (\<exists>batch \<in> set ?loader. non_tensor_batch batch)"
    using map_loop_ValueError [OF fw col] by blast
  have "Featurizer_map fwd dataset batch_size = Inl ValueError
        \<longleftrightarrow> map_loop fwd ?loader = Inl ValueError"
    by (cases "map_loop fwd ?loader") (auto simp: Featurizer_map_def dl torch_cat_def)
  then show "Featurizer_map fwd dataset batch_size = Inl ValueError
        \<longleftrightarrow> (\<exists>batch \<in> set ?loader. non_tensor_batch batch)"
    using ve by simp
qed

theorem Featurizer_map_rows_witness:
  "(0::int) < 2
   \<and> (\<forall>imgs ms. (\<lambda>imgs ms. Inr (map (\<lambda>i. [rat_of_nat i]) imgs)) imgs (ms :: nat list)
                   = (Inr ((\<lambda>imgs ms. map (\<lambda>i. [rat_of_nat i]) imgs) imgs ms) :: error + rat list list)
                 \<and> length ((\<lambda>imgs ms. map (\<lambda>i. [rat_of_nat i]) imgs) imgs ms) = length imgs)
   \<and> ([(2, 10), (3, 20), (4, 30)] :: (nat \<times> nat) list) \<noteq> []
   \<and> Featurizer_map (\<lambda>imgs ms. Inr (map (\<lambda>i. [rat_of_nat i]) imgs))
        (map tensor_sample ([(2, 10), (3, 20), (4, 30)] :: (nat \<times> nat) list)) 2
       = Inr [[2], [3], [4]]
   \<and> list_all collates
        (batches 2 ([(Tensor 2, NonTensor), (Tensor 3, NonTensor)] :: (nat field \<times> nat field) list))
   \<and> Featurizer_map (\<lambda>imgs ms. Inr (map (\<lambda>i. [rat_of_nat i]) imgs))
        ([(Tensor 2, NonTensor), (Tensor 3, NonTensor)] :: (nat field \<times> nat field) list) 2
       = Inl ValueError
   \<and> list_ex non_tensor_batch
        (batches 2 ([(Tensor 2, NonTensor), (Tensor 3, NonTensor)] :: (nat field \<times> nat field) list))"
proof -
  have b1: "batches 2 ([(2, 10), (3, 20), (4, 30)] :: (nat \<times> nat) list)
            = [[(2, 10), (3, 20)], [(4, 30)]]"
    by (simp add: batches.simps)
  have b2: "batches 2 ([(Tensor 2, NonTensor), (Tensor 3, NonTensor)] :: (nat field \<times> nat field) list)
            = [[(Tensor 2, NonTensor), (Tensor 3, NonTensor)]]"
    by (simp add: batches.simps)
  show ?thesis
    using Featurizer_map_rows
      [of 2 "\<lambda>imgs ms. Inr (map (\<lambda>i. [rat_of_nat i]) imgs)"
          "\<lambda>imgs ms. map (\<lambda>i. [rat_of_nat i]) imgs"
          "[(2, 10), (3, 20), (4, 30)] :: (nat \<times> nat) list"
          "[(Tensor 2, NonTensor), (Tensor 3, NonTensor)] :: (nat field \<times> nat field) list"]
    by (simp add: b1 b2 collates_def non_tensor_batch_def default_collate_def)
qed

text \<open>
  C10 as stated fails on the empty dataset, all of whose samples hold tensors: the loader
  yields no batch, and \<open>torch.cat\<close> refuses the empty list of features.
\<close>

theorem Featurizer_map_empty_dataset_counterexample:
  "Featurizer_map (\<lambda>imgs ms. Inr (map (\<lambda>i. [0 :: rat]) imgs))
     ([] :: (nat field \<times> nat field) list) 128 = Inl RuntimeError
   \<and> \<not> (\<exists>rows. Featurizer_map (\<lambda>imgs ms. Inr (map (\<lambda>i. [0 :: rat]) imgs))
                 ([] :: (nat field \<times> nat field) list) 128 = Inr rows
               \<and> length rows = length ([] :: (nat field \<times> nat field) list))"
  by (simp add: Featurizer_map_def DataLoader_def batches_Nil torch_cat_def)

section \<open>\<open>PretrainedPyramidFeaturizer.forward\<close>\<close>

lemma length_nonzero: "length (nonzero valid) = length (filter (\<lambda>v. v) valid)"
proof -
  have "length (filter (\<lambda>v. v) valid) = card {i. i < length valid \<and> valid ! i}"
    by (rule length_filter_conv_card)
  also have "\<dots> = card (set (nonzero valid))"
    by (rule arg_cong [where f = card]) (auto simp: nonzero_def)
  also have "\<dots> = length (nonzero valid)"
    by (rule distinct_card) (simp add: nonzero_def)
  finally show ?thesis by simp
qed

lemma nonzero_bound: "i \<in> set (nonzero valid) \<Longrightarrow> i < length valid \<and> valid ! i"
  by (simp add: nonzero_def)

lemma masked_features_Single:
  "\<exists>e. masked_features bilinear (Single m) features = Inl e \<or> features = []"
  by (cases features) (simp_all add: interpolate_def)

text \<open>A batch whose masks are all zero: the zero result, whatever the network is.\<close>

lemma forward_all_zero:
  assumes "list_all (\<lambda>m. list_all (list_all (\<lambda>x. x = 0)) m) masks"
  shows "forward featurizer bilinear feature_size images masks
         = Inr (replicate (length images) (replicate feature_size (Some 0)))"
proof -
  have "\<not> list_ex (\<lambda>v. v) (valid_masks masks)"
    using assms by (simp add: valid_masks_def list_ex_iff list_all_iff)
  then show ?thesis by (simp add: forward_def Let_def)
qed

text \<open>
  A batch with exactly one mask that is not all zero: \<open>squeeze()\<close> leaves a single index,
  the selected image and mask lose the batch dimension, and \<open>forward\<close> raises, in the
  network, in the bilinear interpolation or in \<open>torch.cat\<close>.
\<close>

lemma forward_single_valid:
  assumes "length (filter (\<lambda>v. v) (valid_masks masks)) = 1"
  shows "\<exists>e. forward featurizer bilinear feature_size images masks = Inl e"
proof -
  let ?valid = "valid_masks masks"
  have "length (nonzero ?valid) = 1"
    using assms by (simp add: length_nonzero)
  then obtain i where i: "nonzero ?valid = [i]"
    by (cases "nonzero ?valid") auto
  then have sq: "squeeze (nonzero ?valid) = Scalar i"
    by (simp add: squeeze_def)
  have "i \<in> set (nonzero ?valid)" using i by simp
  then have iv: "i < length ?valid \<and> ?valid ! i"
    by (rule nonzero_bound)
  have "?valid ! i \<in> set ?valid"
    by (rule nth_mem) (rule iv [THEN conjunct1])
  then have ex: "list_ex (\<lambda>v. v) ?valid"
    using iv [THEN conjunct2] unfolding list_ex_iff by blast
  have il: "i < length masks" using iv [THEN conjunct1] by (simp add: valid_masks_def)
  have sm: "select masks (Scalar i) = Inr (Single (masks ! i))"
    using il by (simp add: select_def)
  show ?thesis
  proof (cases "select images (Scalar i)")
    case (Inl e)
    then show ?thesis using ex sq by (simp add: forward_def Let_def)
  next
    case (Inr images')
    show ?thesis
    proof (cases "featurizer images'")
      case (Inl e)
      then show ?thesis using ex sq Inr sm by (simp add: forward_def Let_def)
    next
      case features: (Inr features)
      show ?thesis
      proof (cases features)
        case Nil
        then show ?thesis
          using ex sq Inr sm features by (simp add: forward_def Let_def torch_cat_last_def)
      next
        case (Cons fs rest)
        then show ?thesis
          using ex sq Inr sm features by (simp add: forward_def Let_def interpolate_def)
      qed
    qed
  qed
qed

lemma fsum_Some: "fsum (map Some xs) = Some (sum_list xs)"
  by (induction xs) simp_all

text \<open>After the division the weights of a mask sum to one, unless they summed to zero.\<close>

lemma normalize_mask_sums_to_one:
  assumes "sum_list (concat m) \<noteq> 0"
  shows "fsum (concat (normalize_mask m)) = Some 1"
proof -
  let ?s = "sum_list (concat m)"
  have "concat (normalize_mask m) = map (\<lambda>x. fdiv x ?s) (concat m)"
    by (simp add: normalize_mask_def map_concat)
  also have "\<dots> = map Some (map (\<lambda>x. x / ?s) (concat m))"
    using assms by (simp add: fdiv_def)
  finally have "fsum (concat (normalize_mask m)) = Some (sum_list (map (\<lambda>x. x / ?s) (concat m)))"
    by (simp only: fsum_Some)
  moreover have "sum_list (map (\<lambda>x. x / c) xs) = sum_list xs / c" for xs and c :: rat
    by (induction xs) (simp_all add: add_divide_distrib)
  then have "sum_list (map (\<lambda>x. x / ?s) (concat m)) = ?s / ?s" .
  ultimately show ?thesis using assms by simp
qed

lemma masked_features_Batch:
  "\<forall>fs \<in> set features. length (channels fs) = length ms \<Longrightarrow>
   masked_features bilinear (Batch ms) features
   = Inr (map (\<lambda>fs. map (\<lambda>(f, m). pool f (normalize_mask m))
                       (zip (channels fs) (map (bilinear (spatial fs)) ms))) features)"
  by (induction features) (simp_all add: interpolate_def)

text \<open>Dividing by a zero sum leaves no finite weight.\<close>

lemma normalize_mask_zero_sum:
  assumes "sum_list (concat m) = 0" and "concat m \<noteq> []"
  shows "fsum (concat (normalize_mask m)) = None"
proof -
  have "concat (normalize_mask m) = map (\<lambda>x. None) (concat m)"
    using assms(1) by (simp add: normalize_mask_def map_concat fdiv_def)
  moreover have "xs \<noteq> [] \<Longrightarrow> fsum (map (\<lambda>x. None) xs) = None" for xs :: "rat list"
    by (cases xs) simp_all
  ultimately show ?thesis using assms(2) by simp
qed

lemma length_pool: "length (pool fs ms) = length fs"
  by (simp add: pool_def)

lemma fold_update_length:
  "length (fold (\<lambda>(i, row) r. r[i := g row]) ps r) = length r"
  by (induction ps arbitrary: r) (simp_all add: case_prod_unfold)

lemma fold_update_other:
  "i \<notin> fst ` set ps \<Longrightarrow> fold (\<lambda>(i, row) r. r[i := g row]) ps r ! i = r ! i"
  by (induction ps arbitrary: r) (auto simp: case_prod_unfold)

lemma fold_update_hit:
  assumes "distinct (map fst ps)" and "j < length ps" and "\<forall>p \<in> set ps. fst p < length r"
  shows "fold (\<lambda>(i, row) r. r[i := g row]) ps r ! fst (ps ! j) = g (snd (ps ! j))"
  using assms
proof (induction ps arbitrary: r j)
  case Nil
  then show ?case by simp
next
  case (Cons p ps)
  show ?case
  proof (cases j)
    case 0
    have "fst p \<notin> fst ` set ps" using Cons.prems(1) by simp
    then have "fold (\<lambda>(i, row) r. r[i := g row]) ps (r[fst p := g (snd p)]) ! fst p
               = r[fst p := g (snd p)] ! fst p"
      by (rule fold_update_other)
    then show ?thesis using 0 Cons.prems(3) by (simp add: case_prod_unfold)
  next
    case (Suc j')
    have "fold (\<lambda>(i, row) r. r[i := g row]) ps (r[fst p := g (snd p)]) ! fst (ps ! j')
          = g (snd (ps ! j'))"
      using Cons.prems Suc by (intro Cons.IH) auto
    then show ?thesis using Suc by (simp add: case_prod_unfold)
  qed
qed

text \<open>
  A batch with at least two masks that are not all zero, on which the network returns its
  retained features: every image with such a mask gets its pyramid features, every other
  image the zero vector.
\<close>

lemma forward_valid_batch:
  fixes masks :: "matrix list"
  defines "positions \<equiv> nonzero (valid_masks masks)"
  assumes len: "length masks = length images"
    and k: "2 \<le> length positions"
    and net: "featurizer (Batch (map (\<lambda>i. images ! i) positions)) = Inr features"
    and ne: "features \<noteq> []"
    and per_image: "\<forall>fs \<in> set features. length (channels fs) = length positions"
    and total_size: "\<forall>j < length positions.
                       (\<Sum>fs\<leftarrow>features. length (channels fs ! j)) = feature_size"
  shows "\<exists>result.
           forward featurizer bilinear feature_size images masks = Inr result
         \<and> length result = length images
         \<and> (\<forall>i < length images. length (result ! i) = feature_size)
         \<and> (\<forall>i < length images. \<not> valid_masks masks ! i \<longrightarrow>
               result ! i = replicate feature_size (Some 0))
         \<and> (\<forall>j < length positions.
               result ! (positions ! j)
               = pyramid_features bilinear features j (masks ! (positions ! j)))"
proof -
  let ?valid = "valid_masks masks"
  let ?k = "length positions"
  let ?zeros = "replicate (length images) (replicate feature_size (Some (0::rat)))"
  let ?ms = "map (\<lambda>i. masks ! i) positions"
  let ?masked = "map (\<lambda>fs. map (\<lambda>(f, m). pool f (normalize_mask m))
                       (zip (channels fs) (map (bilinear (spatial fs)) ?ms))) features"
  let ?feat = "\<lambda>j. pyramid_features bilinear features j (masks ! (positions ! j))"
  let ?g = "\<lambda>row. the (broadcast feature_size row)"
  have lv: "length ?valid = length masks" by (simp add: valid_masks_def)
  have bound: "\<forall>p \<in> set positions. p < length masks \<and> ?valid ! p"
    using nonzero_bound [of _ ?valid] lv unfolding positions_def by auto
  have dist: "distinct positions"
    unfolding positions_def nonzero_def by simp
  obtain a b rest where pos: "positions = a # b # rest"
    using k by (cases positions; cases "tl positions") auto
  have sq: "squeeze (nonzero ?valid) = Vector positions"
    using pos unfolding positions_def [symmetric] by (simp add: squeeze_def)
  have "a \<in> set positions" using pos by simp
  then have "a < length ?valid" "?valid ! a" using bound lv by auto
  then have "?valid ! a \<in> set ?valid" by (intro nth_mem)
  then have ex: "list_ex (\<lambda>v. v) ?valid"
    using \<open>?valid ! a\<close> unfolding list_ex_iff by blast
  have si: "select images (Vector positions) = Inr (Batch (map (\<lambda>i. images ! i) positions))"
    using bound len by (simp add: select_def list_all_iff)
  have sm: "select masks (Vector positions) = Inr (Batch ?ms)"
    using bound by (simp add: select_def list_all_iff)
  have mf: "masked_features bilinear (Batch ?ms) features = Inr ?masked"
    using per_image by (intro masked_features_Batch) simp
  have mne: "?masked \<noteq> []" using ne by simp
  have hd_len: "length (hd ?masked) = ?k"
    using ne per_image by (cases features) simp_all
  have row: "concat (map (\<lambda>mfs. mfs ! j) ?masked) = ?feat j" if "j < ?k" for j
  proof -
    have "map (\<lambda>mfs. mfs ! j) ?masked
          = map (\<lambda>fs. pool (channels fs ! j)
                         (normalize_mask (bilinear (spatial fs) (masks ! (positions ! j))))) features"
      using that per_image by (simp add: comp_def)
    then show ?thesis unfolding pyramid_features_def by (rule arg_cong)
  qed
  have rows: "torch_cat_last ?masked = Inr (map ?feat [0..<?k])"
  proof -
    have "map (\<lambda>j. concat (map (\<lambda>mfs. mfs ! j) ?masked)) [0..<?k] = map ?feat [0..<?k]"
    proof (rule map_cong)
      fix j assume "j \<in> set [0..<?k]"
      then have "j < ?k" by simp
      then show "concat (map (\<lambda>mfs. mfs ! j) ?masked) = ?feat j" by (rule row)
    qed (rule refl)
    moreover have "\<not> list_ex (\<lambda>mfs. length mfs \<noteq> length (hd ?masked)) ?masked"
      unfolding hd_len using per_image by (simp add: list_ex_iff)
    ultimately show ?thesis using mne by (simp only: torch_cat_last_def hd_len if_False)
  qed
  have flen: "length (?feat j) = feature_size" if "j < ?k" for j
  proof -
    have "length (?feat j) = (\<Sum>fs\<leftarrow>features. length (channels fs ! j))"
      by (simp add: pyramid_features_def length_concat comp_def length_pool)
    then show ?thesis using total_size that by simp
  qed
  have geq: "?g (?feat j) = ?feat j" if "j < ?k" for j
    using flen [OF that] by (simp add: broadcast_def)
  have all_fit: "list_all (\<lambda>row. broadcast feature_size row \<noteq> None) (map ?feat [0..<?k])"
    using flen by (simp add: list_all_iff broadcast_def)
  let ?ps = "zip positions (map ?feat [0..<?k])"
  let ?result = "fold (\<lambda>(i, row) r. r[i := ?g row]) ?ps ?zeros"
  have put: "index_put ?zeros (Vector positions) (map ?feat [0..<?k]) feature_size = Inr ?result"
    using all_fit by (simp add: index_put_def broadcast_def)
  have fwd: "forward featurizer bilinear feature_size images masks = Inr ?result"
    unfolding forward_def Let_def
    by (simp only: ex not_True_eq_False if_False sq si sm net mf rows put sum.case)
  have fst_ps: "map fst ?ps = positions" by simp
  have rlen: "length ?result = length images"
    by (simp add: fold_update_length)
  have invalid: "\<forall>i < length images. \<not> ?valid ! i \<longrightarrow> ?result ! i = replicate feature_size (Some 0)"
  proof (intro allI impI)
    fix i assume i: "i < length images" and nv: "\<not> ?valid ! i"
    have "i \<notin> set positions" using bound nv by blast
    then have "i \<notin> fst ` set ?ps" by (metis fst_ps set_map)
    then have "?result ! i = ?zeros ! i" by (rule fold_update_other)
    then show "?result ! i = replicate feature_size (Some 0)" using i by simp
  qed
  have valid: "\<forall>j < ?k. ?result ! (positions ! j) = ?feat j"
  proof (intro allI impI)
    fix j assume j: "j < ?k"
    have "\<forall>p \<in> set ?ps. fst p < length ?zeros"
      using bound len by (auto dest!: set_zip_leftD)
    moreover have "distinct (map fst ?ps)" using dist by (simp only: fst_ps)
    moreover have "j < length ?ps" using j by simp
    ultimately have "?result ! fst (?ps ! j) = ?g (snd (?ps ! j))"
      by (intro fold_update_hit)
    then show "?result ! (positions ! j) = ?feat j"
      using j geq [OF j] by simp
  qed
  have shape: "\<forall>i < length images. length (?result ! i) = feature_size"
  proof (intro allI impI)
    fix i assume i: "i < length images"
    show "length (?result ! i) = feature_size"
    proof (cases "?valid ! i")
      case True
      then have "i \<in> set positions"
        using i len lv unfolding positions_def nonzero_def by simp
      then obtain j where j: "j < ?k" "positions ! j = i"
        by (auto simp: in_set_conv_nth)
      then show ?thesis using valid flen by auto
    next
      case False
      then show ?thesis using invalid i by simp
    qed
  qed
  show ?thesis using fwd rlen shape invalid valid by blast
qed

text \<open>
  An example with three images, of which the second has an all-zero mask, a first layer
  with two channels of size \<open>1 \<times> 1\<close> and a second layer with one channel of size
  \<open>1 \<times> 2\<close>.
\<close>

lemma forward_example:
  "forward (\<lambda>images. case images of
               Single i \<Rightarrow> Inl RuntimeError
             | Batch is \<Rightarrow> Inr [\<lparr>spatial = (1, 1), channels = map (\<lambda>i. [[[i]], [[i * i]]]) is\<rparr>,
                              \<lparr>spatial = (1, 2), channels = map (\<lambda>i. [[[i, 0]]]) is\<rparr>])
           (\<lambda>out_size m. if out_size = (1, 1) then [[sum_list (concat m) / 4]]
                          else [[sum_list (hd m), sum_list (last m)]])
           3 [2, 5, 7] [[[1, 0], [0, 3]], [[0, 0], [0, 0]], [[0, 2], [2, 0]]]
   = Inr [[Some 2, Some 4, Some (1 / 2)], [Some 0, Some 0, Some 0], [Some 7, Some 49, Some (7 / 2)]]"
  by (simp add: forward_def valid_masks_def nonzero_def squeeze_def select_def interpolate_def
      normalize_mask_def pool_def fdiv_def fmul_def torch_cat_last_def index_put_def
      broadcast_def Let_def upt_rec numeral_3_eq_3)

text \<open>
  C5. An image whose mask is not all zero gets its pyramid features when at least one
  other mask of the batch is not all zero either (\<open>forward_valid_batch\<close>). For a batch of
  one image whose mask is not zero, \<open>forward\<close> computes no feature vector: it raises,
  whatever the network and the interpolation are.
\<close>

theorem forward_single_image_raises:
  "\<exists>e. forward featurizer bilinear feature_size [image] [[[1]]] = Inl e"
  by (rule forward_single_valid) (simp add: valid_masks_def)

text \<open>
  C8. A batch whose masks are all zero gets the zero result without a call of the network
  (\<open>forward_all_zero\<close>), but in a batch of two images of which exactly one has an all-zero
  mask, the image with the all-zero mask receives no zero vector: \<open>forward\<close> raises.
\<close>

theorem forward_zero_mask_beside_one_valid_raises:
  "\<exists>e. forward featurizer bilinear feature_size [image0, image1] [[[0]], [[1]]] = Inl e"
  by (rule forward_single_valid) (simp add: valid_masks_def)

section \<open>\<open>LanguageModel.fit\<close>\<close>

text \<open>
  The dictionary that \<open>state_dict\<close> returns shares its tensors with the parameters, so
  loading it back changes nothing.
\<close>

lemma load_state_dict_alias: "load_state_dict params (state_dict params) h = h"
proof -
  have "fold (\<lambda>(p, s) h. h(p := h s)) (zip ps ps) h = h" for ps :: "nat list" and h :: "'a heap"
    by (induction ps arbitrary: h) simp_all
  then show ?thesis by (simp add: load_state_dict_def state_dict_def)
qed

lemma fit_loop_no_restore:
  assumes "fit_loop train validate n_train n_val params progress stopper best h r = Inr (h', n)"
    and "best = state_dict params"
  shows "\<exists>m \<le> length progress. n = r + m \<and> h' = trained train params (take m progress) h"
  using assms
proof (induction progress arbitrary: stopper best h r)
  case Nil
  then show ?case by (simp add: trained_def)
next
  case (Cons epoch progress)
  let ?h1 = "optimizer_step params (train epoch (map h params)) h"
  obtain stop stopper' where sc: "stopper_call stopper (validate (map ?h1 params)) = (stop, stopper')"
    by (cases "stopper_call stopper (validate (map ?h1 params))")
  have nz: "n_train \<noteq> 0" "n_val \<noteq> 0"
    using Cons.prems(1) by (auto split: if_splits simp: Let_def)
  show ?case
  proof (cases stop)
    case True
    then have "h' = ?h1" "n = r + 1"
      using Cons.prems nz sc by (simp_all add: Let_def load_state_dict_alias)
    then have "n = r + 1 \<and> h' = trained train params (take 1 (epoch # progress)) h"
      by (simp add: trained_def)
    then show ?thesis by (intro exI [of _ 1]) simp
  next
    case False
    let ?best' = "if improved stopper' then state_dict params else best"
    have b: "?best' = state_dict params" using Cons.prems(2) by simp
    have "fit_loop train validate n_train n_val params progress stopper' ?best' ?h1 (r + 1)
          = Inr (h', n)"
      using Cons.prems(1) nz sc False by (simp add: Let_def)
    from Cons.IH [OF this b]
    obtain m where m: "m \<le> length progress" "n = r + 1 + m"
        "h' = trained train params (take m progress) ?h1"
      by auto
    have "h' = trained train params (take (Suc m) (epoch # progress)) h"
      using m(3) by (simp add: trained_def)
    then show ?thesis using m(1,2) by (intro exI [of _ "Suc m"]) simp
  qed
qed

lemma fit_loop_returns:
  assumes "0 < n_train" and "0 < n_val"
  shows "\<exists>h' n. fit_loop train validate n_train n_val params progress stopper best h r = Inr (h', n)"
proof (induction progress arbitrary: stopper best h r)
  case Nil
  then show ?case by simp
next
  case (Cons epoch progress)
  let ?h1 = "optimizer_step params (train epoch (map h params)) h"
  obtain stop stopper' where sc: "stopper_call stopper (validate (map ?h1 params)) = (stop, stopper')"
    by (cases "stopper_call stopper (validate (map ?h1 params))")
  show ?case
    using assms sc Cons.IH by (cases stop) (simp_all add: Let_def)
qed

text \<open>
  \<open>fit\<close> returns after at most \<open>max_epochs\<close> epochs, and the parameters it leaves are
  those of the last epoch run, with or without an early stop.
\<close>

lemma fit_total_and_bounded:
  assumes "0 < n_train" and "0 < n_val"
  shows "\<exists>ws n. fit train validate n_train n_val params max_epochs p h = Inr (ws, n)
           \<and> n \<le> max_epochs
           \<and> ws = map (trained train params [0..<n] h) params"
proof -
  obtain h' n where loop: "fit_loop train validate n_train n_val params [0..<max_epochs]
             (EarlyStopping p) (state_dict params) h 0 = Inr (h', n)"
    using fit_loop_returns [OF assms] by blast
  from fit_loop_no_restore [OF loop refl]
  obtain m where m: "m \<le> max_epochs" "n = m" "h' = trained train params (take m [0..<max_epochs]) h"
    by auto
  have "take m [0..<max_epochs] = [0..<m]" using m(1) by (simp add: take_upt)
  then show ?thesis using loop m by (simp add: fit_def)
qed

text \<open>
  C6. \<open>fit\<close> returns after at most \<open>max_epochs\<close> epochs (\<open>fit_total_and_bounded\<close>), but
  an early stop restores nothing. Here every epoch adds 1 to the single parameter and the
  validation loss is its distance from 1: the first epoch gives the parameter 1 with loss
  0, the second gives 2 with loss 1, and with patience 1 \<open>fit\<close> stops after the second
  epoch and leaves the parameter 2, not the parameter 1 of the best epoch.
\<close>

theorem fit_keeps_last_epoch_parameters:
  "fit (\<lambda>epoch ws. map (\<lambda>w. w + 1) ws) (\<lambda>ws. \<bar>hd ws - 1\<bar>) 1 1 [0] 5 1 (\<lambda>a. 0 :: rat)
     = Inr ([2], 2)
   \<and> map (trained (\<lambda>epoch ws. map (\<lambda>w. w + 1) ws) [0] [0] (\<lambda>a. 0 :: rat)) [0] = [1]
   \<and> (\<lambda>ws. \<bar>hd ws - 1\<bar>) [1 :: rat] = 0 \<and> (\<lambda>ws. \<bar>hd ws - 1\<bar>) [2 :: rat] = 1"
  by (simp add: fit_def upt_rec Let_def optimizer_step_def stopper_call_def EarlyStopping_def
      load_state_dict_def state_dict_def trained_def)

end
